theory Spec2Isabelle
  imports Main "HOL-Library.Word"
begin

unbundle bit_operations_syntax

section \<open>Interlace row mapping\<close>

text \<open>
  The row arithmetic of the codec is done on \<^verbatim>\<open>uint32_t\<close>; it is modelled on
  32-bit words, so that \<open>+\<close>, \<open>-\<close> and \<open>*\<close> wrap around as they do in C++.
\<close>

type_synonym uint32_t = "32 word"
type_synonym uint8_t = "8 word"

text \<open>\<^verbatim>\<open>static inline uint32_t ceil_div(uint32_t a, uint32_t b)\<close>\<close>

definition ceil_div :: "uint32_t \<Rightarrow> uint32_t \<Rightarrow> uint32_t" where
  "ceil_div a b = (a + b - 1) div b"

text \<open>\<^verbatim>\<open>static uint32_t get_output_row_interlaced(uint32_t encodedRow, uint32_t height)\<close>\<close>

definition get_output_row_interlaced :: "uint32_t \<Rightarrow> uint32_t \<Rightarrow> uint32_t" where
  "get_output_row_interlaced encodedRow height =
     (if encodedRow * 8 < height then encodedRow * 8
      else if encodedRow * 4 < height then 4 + 8 * (encodedRow - ceil_div height 8)
      else if encodedRow * 2 < height then 2 + 4 * (encodedRow - ceil_div height 4)
      else 1 + 2 * (encodedRow - ceil_div height 2))"

text \<open>
  The same mapping on natural numbers, without wrap-around; it is the reference the
  word-level function is compared with.
\<close>

definition interlace_nat :: "nat \<Rightarrow> nat \<Rightarrow> nat" where
  "interlace_nat r h =
     (if r * 8 < h then r * 8
      else if r * 4 < h then 4 + 8 * (r - (h + 7) div 8)
      else if r * 2 < h then 2 + 4 * (r - (h + 3) div 4)
      else 1 + 2 * (r - (h + 1) div 2))"

text \<open>The candidate inverse: the pass is read off the residue of the output row.\<close>

definition interlace_inv :: "nat \<Rightarrow> nat \<Rightarrow> nat" where
  "interlace_inv out h =
     (if out mod 8 = 0 then out div 8
      else if out mod 8 = 4 then (h + 7) div 8 + out div 8
      else if out mod 4 = 2 then (h + 3) div 4 + out div 4
      else (h + 1) div 2 + out div 2)"

text \<open>
  Two descriptions of the mapping by passes, to be compared with the function above.
  The first gives the four passes the sizes \<open>ceil(h/8)\<close>, \<open>ceil(h/8)\<close>, \<open>ceil(h/4)\<close>,
  \<open>ceil(h/2)\<close>; the second lets pass 1 end at encoded row \<open>ceil(h/8)\<close>, pass 2 at
  \<open>ceil(h/4)\<close>, pass 3 at \<open>ceil(h/2)\<close> and pass 4 at \<open>h\<close>. Both use the strides
  8, 8, 4, 2 and the offsets 0, 4, 2, 1.
\<close>


definition interlace_row_by_pass_sizes :: "uint32_t \<Rightarrow> uint32_t \<Rightarrow> uint32_t" where
  "interlace_row_by_pass_sizes r h =
     (let s1 = ceil_div h 8; s2 = ceil_div h 8; s3 = ceil_div h 4
      in if r < s1 then 0 + 8 * r
         else if r < s1 + s2 then 4 + 8 * (r - s1)
         else if r < s1 + s2 + s3 then 2 + 4 * (r - (s1 + s2))
         else 1 + 2 * (r - (s1 + s2 + s3)))"

definition interlace_row_by_thresholds :: "uint32_t \<Rightarrow> uint32_t \<Rightarrow> uint32_t" where
  "interlace_row_by_thresholds r h =
     (if r < ceil_div h 8 then 0 + 8 * r
      else if r < ceil_div h 4 then 4 + 8 * (r - ceil_div h 8)
      else if r < ceil_div h 2 then 2 + 4 * (r - ceil_div h 4)
      else 1 + 2 * (r - ceil_div h 2))"

section \<open>Data of the external GIF parser\<close>

text \<open>
  The records of giflib that the codec reads. \<^verbatim>\<open>GifWord\<close> is \<^verbatim>\<open>int\<close> and
  \<^verbatim>\<open>GifByteType\<close> is \<^verbatim>\<open>unsigned char\<close>. A pointer that may be \<^verbatim>\<open>NULL\<close> is an
  \<open>option\<close>.
\<close>

record GifColorType =
  Red :: uint8_t
  Green :: uint8_t
  Blue :: uint8_t

record ColorMapObject =
  ColorCount :: int
  BitsPerPixel :: int
  Colors :: "GifColorType list"

record GifImageDesc =
  Left :: int
  Top :: int
  Width :: int
  Height :: int
  Interlace :: bool
  ColorMap :: "ColorMapObject option"

record GifFileType =
  SWidth :: int
  SHeight :: int
  SBackGroundColor :: int
  SColorMap :: "ColorMapObject option"
  Image :: GifImageDesc

text \<open>
  What giflib guarantees of a colour map, as the assertions of
  \<^verbatim>\<open>initializeColorTable\<close> state it: the count is \<^verbatim>\<open>1 << BitsPerPixel\<close>, it is at most
  256, and the array \<^verbatim>\<open>Colors\<close> holds that many entries.
\<close>

definition giflib_guarantees :: "ColorMapObject \<Rightarrow> bool" where
  "giflib_guarantees m \<longleftrightarrow>
     0 \<le> BitsPerPixel m \<and> ColorCount m = 2 ^ nat (BitsPerPixel m)
     \<and> ColorCount m \<le> 256 \<and> int (length (Colors m)) = ColorCount m"

section \<open>The codec\<close>

text \<open>
  A premultiplied colour \<^verbatim>\<open>SkPMColor\<close> is a 32-bit value packed from four channels by
  \<^verbatim>\<open>SkPackARGB32(a, r, g, b)\<close>. The positions of the channels are platform constants;
  a colour is modelled by its four channels, in the order of the arguments of
  \<^verbatim>\<open>SkPackARGB32\<close>.
\<close>

datatype SkPMColor = SkPackARGB32 uint8_t uint8_t uint8_t uint8_t

definition SK_ColorTRANSPARENT :: SkPMColor where
  "SK_ColorTRANSPARENT = SkPackARGB32 0 0 0 0"

fun SkGetPackedA32 :: "SkPMColor \<Rightarrow> uint8_t" where
  "SkGetPackedA32 (SkPackARGB32 a r g b) = a"

text \<open>
  A cell of an array of colours that has not been written holds an indeterminate value:
  \<open>None\<close>. Copying such a cell copies the indeterminate value.
\<close>

type_synonym color_cell = "SkPMColor option"

definition fully_transparent :: "color_cell \<Rightarrow> bool" where
  "fully_transparent p = (case p of None \<Rightarrow> False | Some c \<Rightarrow> SkGetPackedA32 c = 0)"

text \<open>Reading \<^verbatim>\<open>a[i]\<close>; a read outside the array yields an indeterminate value.\<close>

definition array_read :: "color_cell list \<Rightarrow> nat \<Rightarrow> color_cell" where
  "array_read a i = (if i < length a then a ! i else None)"

datatype Result =
  kSuccess | kIncompleteInput | kInvalidConversion | kInvalidScale | kInvalidParameters
  | kInvalidInput | kCouldNotRewind | kUnimplemented

text \<open>
  Arithmetic on \<^verbatim>\<open>int32_t\<close>. The model keeps the values as \<open>int\<close> and reduces the
  result of every sum and difference to the range of 32 bits in two's complement, which
  is what the compiled code computes (in C++ a signed overflow is undefined).
  \<open>in_int32\<close> tells the values an \<^verbatim>\<open>int32_t\<close> can hold.
\<close>

definition int32 :: "int \<Rightarrow> int" where
  "int32 k = (k + 2147483648) mod 4294967296 - 2147483648"

definition in_int32 :: "int \<Rightarrow> bool" where
  "in_int32 k \<longleftrightarrow> - 2147483648 \<le> k \<and> k \<le> 2147483647"

text \<open>\<^verbatim>\<open>SkIRect\<close>, with the members the codec uses. Coordinates are \<^verbatim>\<open>int32_t\<close>.\<close>

record SkIRect =
  fLeft :: int
  fTop :: int
  fRight :: int
  fBottom :: int

definition MakeEmpty :: SkIRect where
  "MakeEmpty = \<lparr>fLeft = 0, fTop = 0, fRight = 0, fBottom = 0\<rparr>"

definition setXYWH :: "int \<Rightarrow> int \<Rightarrow> int \<Rightarrow> int \<Rightarrow> SkIRect" where
  "setXYWH x y w h = \<lparr>fLeft = x, fTop = y, fRight = int32 (x + w), fBottom = int32 (y + h)\<rparr>"

definition rect_width :: "SkIRect \<Rightarrow> int" where
  "rect_width r = int32 (fRight r - fLeft r)"

definition rect_height :: "SkIRect \<Rightarrow> int" where
  "rect_height r = int32 (fBottom r - fTop r)"

text \<open>\<^verbatim>\<open>SkImageInfo\<close>: dimensions, colour type and alpha type.\<close>

datatype SkColorType = kUnknown_SkColorType | kIndex_8_SkColorType | kN32_SkColorType

datatype SkAlphaType = kOpaque_SkAlphaType | kPremul_SkAlphaType | kUnpremul_SkAlphaType

record SkImageInfo =
  fWidth :: int
  fHeight :: int
  fColorType :: SkColorType
  fAlphaType :: SkAlphaType

text \<open>
  The fields of \<^verbatim>\<open>SkGifCodec\<close>, and \<^verbatim>\<open>this->getInfo()\<close>, the image info of the
  logical screen. \<open>fColorTable\<close> is \<open>None\<close> until a colour table has been built.
\<close>

record SkGifCodec =
  getInfo :: SkImageInfo
  fGif :: GifFileType
  fTransIndex :: uint32_t
  fFillIndex :: uint32_t
  fFrameDims :: SkIRect
  fFrameIsSubset :: bool
  fColorTable :: "color_cell list option"

text \<open>The constructor \<^verbatim>\<open>SkGifCodec::SkGifCodec(srcInfo, stream, gif, transIndex)\<close>.\<close>

definition new_SkGifCodec :: "SkImageInfo \<Rightarrow> GifFileType \<Rightarrow> uint32_t \<Rightarrow> SkGifCodec" where
  "new_SkGifCodec srcInfo gif transIndex =
     \<lparr>getInfo = srcInfo, fGif = gif,
      fTransIndex = transIndex, fFillIndex = 0, fFrameDims = MakeEmpty,
      fFrameIsSubset = False, fColorTable = None\<rparr>"

subsection \<open>Frame geometry\<close>

text \<open>
  \<^verbatim>\<open>bool SkGifCodec::setFrameDimensions(const GifImageDesc& desc)\<close>. The arithmetic is
  on \<^verbatim>\<open>int32_t\<close>: the sums \<^verbatim>\<open>frameLeft + frameWidth\<close> and \<^verbatim>\<open>frameTop + frameHeight\<close>
  and the differences are reduced to 32 bits.
\<close>

definition setFrameDimensions :: "SkGifCodec \<Rightarrow> GifImageDesc \<Rightarrow> bool \<times> SkGifCodec" where
  "setFrameDimensions c desc =
     (let frameLeft = Left desc; frameTop = Top desc;
          frameWidth = Width desc; frameHeight = Height desc;
          height = fHeight (getInfo c); width = fWidth (getInfo c)
      in if frameWidth \<le> 0 \<or> frameHeight \<le> 0 then (False, c)
         else
           let (frameWidth, frameLeft) =
                 (if frameWidth > width then (width, 0)
                  else if int32 (frameLeft + frameWidth) > width
                  then (frameWidth, int32 (width - frameWidth))
                  else if frameLeft < 0 then (frameWidth, 0)
                  else (frameWidth, frameLeft));
               (frameHeight, frameTop) =
                 (if frameHeight > height then (height, 0)
                  else if int32 (frameTop + frameHeight) > height
                  then (frameHeight, int32 (height - frameHeight))
                  else if frameTop < 0 then (frameHeight, 0)
                  else (frameHeight, frameTop));
               dims = setXYWH frameLeft frameTop frameWidth frameHeight
           in (True,
               c\<lparr>fFrameDims := dims,
                 fFrameIsSubset :=
                   (if (fWidth (getInfo c), fHeight (getInfo c)) \<noteq> (rect_width dims, rect_height dims)
                    then True else fFrameIsSubset c)\<rparr>))"

text \<open>
  The descriptors on which \<^verbatim>\<open>setFrameDimensions\<close> computes without signed overflow: the
  size of the canvas and the position of the frame are values of \<^verbatim>\<open>int32_t\<close>, and so are
  the sums \<^verbatim>\<open>frameLeft + frameWidth\<close> and \<^verbatim>\<open>frameTop + frameHeight\<close>. A negative position is
  among them, and so is every descriptor of a GIF stream, whose fields have 16 bits.
\<close>

definition no_overflow :: "SkGifCodec \<Rightarrow> GifImageDesc \<Rightarrow> bool" where
  "no_overflow c desc \<longleftrightarrow>
     fWidth (getInfo c) \<le> 2147483647 \<and> fHeight (getInfo c) \<le> 2147483647
     \<and> - 2147483648 \<le> Left desc \<and> Left desc + Width desc \<le> 2147483647
     \<and> - 2147483648 \<le> Top desc \<and> Top desc + Height desc \<le> 2147483647"

text \<open>
  The rule of the specification for one axis, in its words: a size above the canvas
  shrinks to the canvas and resets the position to 0; else a frame that ends beyond the
  canvas is shifted flush against the far edge; else a negative position is clamped to
  0. The result is the position and the size.
\<close>

definition resolve_axis :: "int \<Rightarrow> int \<Rightarrow> int \<Rightarrow> int \<times> int" where
  "resolve_axis pos extent canvas =
     (if extent > canvas then (0, canvas)
      else if pos + extent > canvas then (canvas - extent, extent)
      else if pos < 0 then (0, extent)
      else (pos, extent))"

subsection \<open>Colour table\<close>

text \<open>
  The loop \<^verbatim>\<open>for (i = 0; i < colorCount; i++) colorPtr[i] = SkPackARGB32(0xFF, ...)\<close>
  of \<^verbatim>\<open>initializeColorTable\<close>.
\<close>

definition palette_color :: "ColorMapObject \<Rightarrow> nat \<Rightarrow> SkPMColor" where
  "palette_color colorMap i =
     SkPackARGB32 0xFF (Red (Colors colorMap ! i)) (Green (Colors colorMap ! i))
       (Blue (Colors colorMap ! i))"

definition copy_palette :: "ColorMapObject \<Rightarrow> nat \<Rightarrow> color_cell list \<Rightarrow> color_cell list" where
  "copy_palette colorMap colorCount colorPtr =
     fold (\<lambda>i cp. cp[i := Some (palette_color colorMap i)]) [0..<colorCount] colorPtr"

text \<open>
  The loop \<^verbatim>\<open>for (i = colorCount; i < maxColors; i++) colorPtr[i] = colorPtr[fFillIndex]\<close>.
\<close>

definition fill_unused :: "nat \<Rightarrow> nat \<Rightarrow> nat \<Rightarrow> color_cell list \<Rightarrow> color_cell list" where
  "fill_unused fillIndex colorCount maxColors colorPtr =
     fold (\<lambda>i cp. cp[i := array_read cp fillIndex]) [colorCount..<maxColors] colorPtr"

text \<open>
  Modelled from the spec: \<^verbatim>\<open>copy_color_table(dstInfo, colorTable, inputColorPtr,
  inputColorCount)\<close> of \<^verbatim>\<open>SkCodecPriv.h\<close> is not part of the sources at hand. The
  builder "produces a ColorTable plus the number of real colors for the caller": the
  helper hands the colours of the table to the caller's array and leaves the caller's count
  as the builder has set it. Only the count is modelled.
\<close>

definition copy_color_table :: "color_cell list \<Rightarrow> int option \<Rightarrow> int option" where
  "copy_color_table colorTable inputColorCount = inputColorCount"

text \<open>
  \<^verbatim>\<open>void SkGifCodec::initializeColorTable(dstInfo, inputColorPtr, inputColorCount)\<close>.
  The local array \<^verbatim>\<open>colorPtr[256]\<close> starts uninitialised. The argument
  \<open>inputColorCount\<close> is \<open>None\<close> for a \<^verbatim>\<open>NULL\<close> pointer and otherwise the value the
  caller's variable holds; the second component of the result is that variable after the
  call.
\<close>

definition initializeColorTable :: "SkGifCodec \<Rightarrow> int option \<Rightarrow> SkGifCodec \<times> int option" where
  "initializeColorTable c inputColorCount =
     (let maxColors = (256 :: uint32_t);
          colorPtr = replicate 256 (None :: color_cell);
          inputColorCount' =
            (case inputColorCount of None \<Rightarrow> None | Some _ \<Rightarrow> Some (uint maxColors));
          colorMap =
            (case ColorMap (Image (fGif c)) of None \<Rightarrow> SColorMap (fGif c) | Some m \<Rightarrow> Some m);
          colorCount =
            (case colorMap of None \<Rightarrow> (0 :: uint32_t) | Some m \<Rightarrow> word_of_int (ColorCount m));
          colorPtr =
            (case colorMap of None \<Rightarrow> colorPtr
             | Some m \<Rightarrow> copy_palette m (unat colorCount) colorPtr);
          backgroundIndex = (word_of_int (SBackGroundColor (fGif c)) :: uint32_t);
          colorPtr =
            (if fTransIndex c < colorCount
             then colorPtr[unat (fTransIndex c) := Some SK_ColorTRANSPARENT] else colorPtr);
          fillIndex =
            (if fTransIndex c < colorCount then fTransIndex c
             else if backgroundIndex < colorCount then backgroundIndex
             else fFillIndex c);
          colorPtr = fill_unused (unat fillIndex) (unat colorCount) (unat maxColors) colorPtr
      in (c\<lparr>fFillIndex := fillIndex, fColorTable := Some colorPtr\<rparr>,
          copy_color_table colorPtr inputColorCount'))"

text \<open>The colour table of a codec, as a function of the index; an unset table reads as indeterminate.\<close>

definition table_entry :: "SkGifCodec \<Rightarrow> nat \<Rightarrow> color_cell" where
  "table_entry c i = (case fColorTable c of None \<Rightarrow> None | Some t \<Rightarrow> array_read t i)"

text \<open>
  The number of colours of the active palette (the local one, else the global one), and
  the fill index by the order of preference of the specification: the transparency index
  if it is below that number, else the background index if it is, else 0.
\<close>

definition active_color_map :: "GifFileType \<Rightarrow> ColorMapObject option" where
  "active_color_map gif =
     (case ColorMap (Image gif) of None \<Rightarrow> SColorMap gif | Some m \<Rightarrow> Some m)"

definition active_color_count :: "GifFileType \<Rightarrow> int" where
  "active_color_count gif =
     (case active_color_map gif of None \<Rightarrow> 0 | Some m \<Rightarrow> ColorCount m)"

definition preferred_fill_index :: "GifFileType \<Rightarrow> uint32_t \<Rightarrow> int" where
  "preferred_fill_index gif transIndex =
     (if uint transIndex < active_color_count gif then uint transIndex
      else if uint (word_of_int (SBackGroundColor gif) :: uint32_t) < active_color_count gif
      then uint (word_of_int (SBackGroundColor gif) :: uint32_t)
      else 0)"

subsection \<open>Example inputs\<close>

text \<open>
  A global palette of two colours, black and white, and logical screens of one pixel that
  use it: one with the background index 1, one with the background index 5 (not an index
  of the palette) and one without any palette. \<open>SK_MaxU32\<close> is the transparency index
  of a stream that declares none.
\<close>

definition one_pixel_info :: SkImageInfo where
  "one_pixel_info =
     \<lparr>fWidth = 1, fHeight = 1, fColorType = kIndex_8_SkColorType,
      fAlphaType = kOpaque_SkAlphaType\<rparr>"

definition SK_MaxU32 :: uint32_t where
  "SK_MaxU32 = 0xFFFFFFFF"

definition black_white :: ColorMapObject where
  "black_white =
     \<lparr>ColorCount = 2, BitsPerPixel = 1,
      Colors = [\<lparr>Red = 0, Green = 0, Blue = 0\<rparr>, \<lparr>Red = 255, Green = 255, Blue = 255\<rparr>]\<rparr>"

definition one_pixel_frame :: GifImageDesc where
  "one_pixel_frame =
     \<lparr>Left = 0, Top = 0, Width = 1, Height = 1, Interlace = False, ColorMap = None\<rparr>"

definition gif_background_1 :: GifFileType where
  "gif_background_1 =
     \<lparr>SWidth = 1, SHeight = 1, SBackGroundColor = 1, SColorMap = Some black_white,
      Image = one_pixel_frame\<rparr>"

definition gif_background_5 :: GifFileType where
  "gif_background_5 =
     \<lparr>SWidth = 1, SHeight = 1, SBackGroundColor = 5, SColorMap = Some black_white,
      Image = one_pixel_frame\<rparr>"

definition gif_no_palette :: GifFileType where
  "gif_no_palette =
     \<lparr>SWidth = 1, SHeight = 1, SBackGroundColor = 0, SColorMap = None,
      Image = one_pixel_frame\<rparr>"

text \<open>
  A logical screen of 10 by 10 pixels with the palette of two colours, and an image
  descriptor that declares the frame at (8, -1) with the size 4 by 20.
\<close>

definition canvas_10x10 :: SkImageInfo where
  "canvas_10x10 =
     \<lparr>fWidth = 10, fHeight = 10, fColorType = kIndex_8_SkColorType,
      fAlphaType = kOpaque_SkAlphaType\<rparr>"

definition gif_10x10 :: "GifImageDesc \<Rightarrow> GifFileType" where
  "gif_10x10 desc =
     \<lparr>SWidth = 10, SHeight = 10, SBackGroundColor = 0, SColorMap = Some black_white,
      Image = desc\<rparr>"

definition frame_out_of_place :: GifImageDesc where
  "frame_out_of_place =
     \<lparr>Left = 8, Top = - 1, Width = 4, Height = 20, Interlace = False, ColorMap = None\<rparr>"

section \<open>Scanning the header\<close>

text \<open>
  giflib's \<^verbatim>\<open>ExtensionBlock\<close> and the part of \<^verbatim>\<open>SavedImage\<close> that
  \<^verbatim>\<open>ReadUpToFirstImage\<close> uses to collect extension blocks.
\<close>

record ExtensionBlock =
  ByteCount :: int
  Bytes :: "uint8_t list"
  Function :: int

record SavedImage =
  ExtensionBlockCount :: int
  ExtensionBlocks :: "ExtensionBlock list"

text \<open>The function code of a graphics control extension, from \<^verbatim>\<open>gif_lib.h\<close>.\<close>

definition GRAPHICS_EXT_FUNC_CODE :: int where
  "GRAPHICS_EXT_FUNC_CODE = 0xf9"

text \<open>
  \<^verbatim>\<open>static uint32_t find_trans_index(const SavedImage& image)\<close>. The loop runs from the
  last block to the first; \<open>find_trans_index_from blocks n\<close> is the loop with \<open>n\<close>
  blocks left to look at, so that the block examined is \<open>blocks ! (n - 1)\<close>.
\<close>

fun find_trans_index_from :: "ExtensionBlock list \<Rightarrow> nat \<Rightarrow> uint32_t" where
  "find_trans_index_from blocks 0 = SK_MaxU32"
| "find_trans_index_from blocks (Suc i) =
     (let extBlock = blocks ! i
      in if GRAPHICS_EXT_FUNC_CODE = Function extBlock \<and> ByteCount extBlock \<ge> 4
         then (if 1 = (Bytes extBlock ! 0) AND 1 then ucast (Bytes extBlock ! 3)
               else SK_MaxU32)
         else find_trans_index_from blocks i)"

definition find_trans_index :: "SavedImage \<Rightarrow> uint32_t" where
  "find_trans_index savedImage =
     find_trans_index_from (ExtensionBlocks savedImage) (nat (ExtensionBlockCount savedImage))"

text \<open>
  The external parser is seen through the records it delivers, in the order of the
  stream. \<^verbatim>\<open>DGifGetRecordType\<close> yields the type of the next record and fails when there
  is none. An extension record carries its function code and the payloads of its
  sub-blocks (\<^verbatim>\<open>DGifGetExtension\<close>, \<^verbatim>\<open>DGifGetExtensionNext\<close>); its flag is false when
  the stream ends before the terminator of the sub-blocks, so that the read after the last
  payload fails. An image descriptor record carries what \<^verbatim>\<open>DGifGetImageDesc\<close> reads,
  \<open>None\<close> when that read fails.
\<close>

datatype GifRecord =
  IMAGE_DESC_RECORD "GifImageDesc option"
| EXTENSION_RECORD int "uint8_t list list" bool
| TERMINATE_RECORD

text \<open>
  \<^verbatim>\<open>GifAddExtensionBlock(&count, &blocks, function, extData[0], &extData[1])\<close>: the
  block appended has the length byte of the sub-block as its byte count.
\<close>

definition GifAddExtensionBlock :: "SavedImage \<Rightarrow> int \<Rightarrow> uint8_t list \<Rightarrow> SavedImage" where
  "GifAddExtensionBlock saveExt extFunction payload =
     \<lparr>ExtensionBlockCount = ExtensionBlockCount saveExt + 1,
      ExtensionBlocks = ExtensionBlocks saveExt
        @ [\<lparr>ByteCount = int (length payload), Bytes = payload, Function = extFunction\<rparr>]\<rparr>"

text \<open>
  \<^verbatim>\<open>SkCodec::Result SkGifCodec::ReadUpToFirstImage(GifFileType* gif, uint32_t* transIndex)\<close>:
  the loop over the records, with the blocks saved so far. The result is the status, the
  transparency index written through \<^verbatim>\<open>transIndex\<close> (on success) and the records not
  yet consumed, the first of which is then the image descriptor.
\<close>

fun ReadUpToFirstImage_from ::
  "SavedImage \<Rightarrow> GifRecord list \<Rightarrow> Result \<times> uint32_t option \<times> GifRecord list" where
  "ReadUpToFirstImage_from saveExt [] = (kInvalidInput, None, [])"
| "ReadUpToFirstImage_from saveExt (IMAGE_DESC_RECORD desc # rest) =
     (kSuccess, Some (find_trans_index saveExt), IMAGE_DESC_RECORD desc # rest)"
| "ReadUpToFirstImage_from saveExt (EXTENSION_RECORD extFunction payloads complete # rest) =
     (if \<not> complete then (kIncompleteInput, None, rest)
      else ReadUpToFirstImage_from
             (fold (\<lambda>payload s. GifAddExtensionBlock s extFunction payload) payloads saveExt)
             rest)"
| "ReadUpToFirstImage_from saveExt (TERMINATE_RECORD # rest) = (kInvalidInput, None, rest)"

definition ReadUpToFirstImage ::
  "GifRecord list \<Rightarrow> Result \<times> uint32_t option \<times> GifRecord list" where
  "ReadUpToFirstImage records =
     ReadUpToFirstImage_from \<lparr>ExtensionBlockCount = 0, ExtensionBlocks = []\<rparr> records"

text \<open>
  A stream as \<^verbatim>\<open>ReadHeader\<close> sees it: what \<^verbatim>\<open>DGifOpen\<close> returns (\<open>None\<close> when it
  fails; otherwise the logical screen with its global colour map) and the records that
  follow.
\<close>

record GifSource =
  opened :: "GifFileType option"
  records :: "GifRecord list"

text \<open>
  \<^verbatim>\<open>bool SkGifCodec::ReadHeader(stream, codecOut, gifOut)\<close> with a \<^verbatim>\<open>codecOut\<close>, as
  \<^verbatim>\<open>NewFromStream\<close> calls it: \<open>None\<close> is the result \<^verbatim>\<open>false\<close>, otherwise the codec
  created. \<^verbatim>\<open>DGifGetImageDesc\<close> stores the descriptor read in \<^verbatim>\<open>gif->Image\<close>.
\<close>

definition ReadHeader :: "GifSource \<Rightarrow> SkGifCodec option" where
  "ReadHeader stream =
     (case opened stream of
        None \<Rightarrow> None
      | Some gif \<Rightarrow>
          (case ReadUpToFirstImage (records stream) of
             (kSuccess, Some transIndex, IMAGE_DESC_RECORD (Some desc) # rest) \<Rightarrow>
               (let width = SWidth gif; height = SHeight gif
                in if width \<le> 0 \<or> height \<le> 0 then None
                   else
                     let alphaType = (if transIndex < 256 then kPremul_SkAlphaType
                                      else kOpaque_SkAlphaType);
                         imageInfo = \<lparr>fWidth = width, fHeight = height,
                                      fColorType = kIndex_8_SkColorType,
                                      fAlphaType = alphaType\<rparr>
                     in Some (new_SkGifCodec imageInfo (gif\<lparr>Image := desc\<rparr>) transIndex))
           | _ \<Rightarrow> None))"

text \<open>
  The extension blocks that have arrived when the first image descriptor is met, in the
  order of their arrival: every sub-block of every extension record before it.
\<close>

fun blocks_before_first_image :: "GifRecord list \<Rightarrow> ExtensionBlock list" where
  "blocks_before_first_image [] = []"
| "blocks_before_first_image (IMAGE_DESC_RECORD desc # rest) = []"
| "blocks_before_first_image (EXTENSION_RECORD extFunction payloads complete # rest) =
     map (\<lambda>payload. \<lparr>ByteCount = int (length payload), Bytes = payload,
                       Function = extFunction\<rparr>) payloads
     @ blocks_before_first_image rest"
| "blocks_before_first_image (TERMINATE_RECORD # rest) = []"

text \<open>
  The transparency index that a list of extension blocks bears, in the words of the
  specification: the blocks are scanned in reverse order of arrival for the most recent
  graphics control block with at least 4 bytes; the index is byte 3 of that block if bit
  0 of its byte 0 is set; otherwise, and when there is no such block, there is none.
\<close>

fun transparency_of_blocks :: "ExtensionBlock list \<Rightarrow> uint8_t option" where
  "transparency_of_blocks [] = None"
| "transparency_of_blocks (b # older) =
     (if Function b = GRAPHICS_EXT_FUNC_CODE \<and> 4 \<le> length (Bytes b)
      then (if bit (Bytes b ! 0) 0 then Some (Bytes b ! 3) else None)
      else transparency_of_blocks older)"

text \<open>A block whose byte count is the number of its bytes, as every block saved by the scan is.\<close>

definition well_formed_block :: "ExtensionBlock \<Rightarrow> bool" where
  "well_formed_block b \<longleftrightarrow> ByteCount b = int (length (Bytes b))"

text \<open>
  A stream with one graphics control extension that declares the transparency index 7,
  followed by an image of one pixel, and the same stream without the extension.
\<close>

definition gif_screen_1x1 :: GifFileType where
  "gif_screen_1x1 =
     \<lparr>SWidth = 1, SHeight = 1, SBackGroundColor = 0, SColorMap = Some black_white,
      Image = one_pixel_frame\<rparr>"

definition stream_transparent_7 :: GifSource where
  "stream_transparent_7 =
     \<lparr>opened = Some gif_screen_1x1,
      records = [EXTENSION_RECORD 0xf9 [[1, 0, 0, 7]] True,
                 IMAGE_DESC_RECORD (Some one_pixel_frame)]\<rparr>"

definition stream_opaque :: GifSource where
  "stream_opaque =
     \<lparr>opened = Some gif_screen_1x1,
      records = [IMAGE_DESC_RECORD (Some one_pixel_frame)]\<rparr>"

section \<open>Decoding rows\<close>

text \<open>
  The destination buffer is seen as cells of one pixel each, addressed by their offset from
  the pointer \<^verbatim>\<open>dst\<close> the caller passes; \<^verbatim>\<open>dstRowBytes\<close> is counted in pixels as well.
  A cell that holds an indeterminate value is \<open>None\<close>. A write is not confined to the
  buffer: a function of the offset has a cell for every offset.
\<close>

type_synonym pixels = "nat \<Rightarrow> color_cell"

definition write_row :: "pixels \<Rightarrow> nat \<Rightarrow> color_cell list \<Rightarrow> pixels" where
  "write_row mem p vals = (\<lambda>a. if p \<le> a \<and> a < p + length vals then vals ! (a - p) else mem a)"

text \<open>
  Modelled from the spec: \<^verbatim>\<open>SkSwizzler\<close> is not part of the sources at hand. For the
  source format \<^verbatim>\<open>kIndex\<close> it "writes the palette-index row through the color table into
  destination pixels", one pixel for each of the \<^verbatim>\<open>dstInfo.width()\<close> indices of the row,
  without scaling. A source byte that was never written gives an indeterminate pixel.
\<close>

record SkSwizzler =
  swz_colorTable :: "color_cell list"
  swz_dstWidth :: nat

definition swizzle :: "SkSwizzler \<Rightarrow> nat \<Rightarrow> uint8_t list \<Rightarrow> pixels \<Rightarrow> pixels" where
  "swizzle s dstRow src mem =
     write_row mem dstRow
       (map (\<lambda>x. if x < length src then array_read (swz_colorTable s) (unat (src ! x)) else None)
          [0..<swz_dstWidth s])"

text \<open>
  Modelled from the spec: \<^verbatim>\<open>SkSwizzler::Fill(dstStartRow, dstInfo, dstRowBytes, numRows,
  colorOrIndex, colorTable, zeroInit)\<close> "fills the rows' destination pixels with the fill
  color": \<open>numRows\<close> rows of \<^verbatim>\<open>dstInfo.width()\<close> pixels each, \<open>dstRowBytes\<close> apart, from
  \<open>dstStartRow\<close> on, with the colour \<^verbatim>\<open>colorTable[(uint8_t) colorOrIndex]\<close>. The
  shortcut for zero-initialised memory is not modelled.
\<close>

fun fill_rows :: "pixels \<Rightarrow> nat \<Rightarrow> nat \<Rightarrow> nat \<Rightarrow> nat \<Rightarrow> color_cell \<Rightarrow> pixels" where
  "fill_rows mem p width rowBytes 0 color = mem"
| "fill_rows mem p width rowBytes (Suc n) color =
     fill_rows (write_row mem p (replicate width color)) (p + rowBytes) width rowBytes n color"

definition Fill ::
  "pixels \<Rightarrow> nat \<Rightarrow> nat \<Rightarrow> nat \<Rightarrow> uint32_t \<Rightarrow> uint32_t \<Rightarrow> color_cell list \<Rightarrow> pixels" where
  "Fill mem dstStartRow dstWidth dstRowBytes numRows colorOrIndex colorTable =
     fill_rows mem dstStartRow dstWidth dstRowBytes (unat numRows)
       (array_read colorTable (unat (ucast colorOrIndex :: uint8_t)))"

text \<open>\<^verbatim>\<open>get_color_ptr(fColorTable.get())\<close>: the colours of the table, none for a null table.\<close>

definition get_color_ptr :: "color_cell list option \<Rightarrow> color_cell list" where
  "get_color_ptr colorTable = (case colorTable of None \<Rightarrow> [] | Some t \<Rightarrow> t)"

text \<open>
  What a decode call finds outside the codec: whether \<^verbatim>\<open>rewindIfNeeded\<close> succeeds,
  \<^verbatim>\<open>opts.fSubset\<close>, whether \<^verbatim>\<open>conversion_possible(dstInfo, getInfo())\<close> holds, and whether
  \<^verbatim>\<open>SkSwizzler::CreateSwizzler\<close> returns a swizzler. The scanline decoder asks two more
  things of \<^verbatim>\<open>SkScaledCodec\<close>: whether \<^verbatim>\<open>DimensionsSupportedForSampling\<close> holds, and the
  width \<^verbatim>\<open>get_scaled_dimension(w, sampleX)\<close> for the \<open>sampleX\<close> of \<^verbatim>\<open>ComputeSampleSize\<close>.
\<close>

record DecodeEnv =
  rewound :: bool
  opts_fSubset :: bool
  conversion_possible :: bool
  swizzler_created :: bool
  sampling_supported :: bool
  scaled_dimension :: "int \<Rightarrow> int"

text \<open>\<^verbatim>\<open>SkCodec::Result SkGifCodec::prepareToDecode(dstInfo, inputColorPtr, inputColorCount, opts)\<close>\<close>

definition prepareToDecode ::
  "SkGifCodec \<Rightarrow> DecodeEnv \<Rightarrow> int option \<Rightarrow> Result \<times> SkGifCodec \<times> int option" where
  "prepareToDecode c env inputColorCount =
     (if \<not> rewound env then (kCouldNotRewind, c, inputColorCount)
      else if opts_fSubset env then (kUnimplemented, c, inputColorCount)
      else if \<not> conversion_possible env then (kInvalidConversion, c, inputColorCount)
      else
        let desc = Image (fGif c);
            (ok, c) = setFrameDimensions c desc
        in if \<not> ok then (kInvalidInput, c, inputColorCount)
           else
             let (c, inputColorCount) = initializeColorTable c inputColorCount
             in (kSuccess, c, inputColorCount))"

text \<open>
  \<^verbatim>\<open>SkCodec::Result SkGifCodec::initializeSwizzler(dstInfo, zeroInit)\<close>; \<open>None\<close> is the
  result \<^verbatim>\<open>kUnimplemented\<close>, and the swizzler stands for \<^verbatim>\<open>fSwizzler\<close> otherwise.
\<close>

definition initializeSwizzler :: "SkGifCodec \<Rightarrow> DecodeEnv \<Rightarrow> int \<Rightarrow> SkSwizzler option" where
  "initializeSwizzler c env dstWidth =
     (if swizzler_created env
      then Some \<lparr>swz_colorTable = get_color_ptr (fColorTable c), swz_dstWidth = nat dstWidth\<rparr>
      else None)"

text \<open>
  The external row decompressor is seen through the rows it still has to deliver.
  \<^verbatim>\<open>DGifGetLine(gif, line, len)\<close> writes a row of \<open>len\<close> indices or fails; it fails when
  the input has run out or does not decode to a row of that length.
  \<^verbatim>\<open>SkGifCodec::readRow\<close> returns the status, the decompressor after the call and the row
  that \<^verbatim>\<open>fSrcBuffer\<close> holds on success.
\<close>

definition readRow ::
  "uint8_t list list \<Rightarrow> nat \<Rightarrow> Result \<times> uint8_t list list \<times> uint8_t list" where
  "readRow rows width =
     (case rows of
        [] \<Rightarrow> (kIncompleteInput, [], [])
      | r # rest \<Rightarrow> if length r = width then (kSuccess, rest, r) else (kIncompleteInput, rest, []))"

text \<open>
  The recovery of the interlaced branch of \<^verbatim>\<open>onGetPixels\<close>: after
  \<^verbatim>\<open>memset(fSrcBuffer.get(), fFillIndex, width)\<close> the loop
  \<^verbatim>\<open>for (; y < height; y++)\<close> swizzles the buffer into the output row of every encoded
  row that is left.
\<close>

definition fill_interlaced ::
  "SkSwizzler \<Rightarrow> uint32_t \<Rightarrow> nat \<Rightarrow> nat \<Rightarrow> nat \<Rightarrow> uint32_t \<Rightarrow> nat \<Rightarrow> pixels \<Rightarrow> pixels" where
  "fill_interlaced s fillIndex width dst dstRowBytes height y mem =
     fold (\<lambda>y mem.
             swizzle s (dst + dstRowBytes * unat (get_output_row_interlaced (word_of_nat y) height))
               (replicate width (ucast fillIndex)) mem)
       [y..<unat height] mem"

text \<open>The interlaced loop \<^verbatim>\<open>for (uint32_t y = 0; y < height; y++)\<close> of \<^verbatim>\<open>onGetPixels\<close>, from row \<open>y\<close> on.\<close>

function decode_interlaced ::
  "SkSwizzler \<Rightarrow> uint32_t \<Rightarrow> nat \<Rightarrow> nat \<Rightarrow> nat \<Rightarrow> uint32_t \<Rightarrow> nat \<Rightarrow> uint8_t list list
    \<Rightarrow> pixels \<Rightarrow> Result \<times> uint8_t list list \<times> pixels" where
  "decode_interlaced s fillIndex width dst dstRowBytes height y rows mem =
     (if y < unat height
      then (case readRow rows width of
              (kSuccess, rows', src) \<Rightarrow>
                decode_interlaced s fillIndex width dst dstRowBytes height (y + 1) rows'
                  (swizzle s
                     (dst + dstRowBytes * unat (get_output_row_interlaced (word_of_nat y) height))
                     src mem)
            | (_, rows', src) \<Rightarrow>
                (kIncompleteInput, rows',
                 fill_interlaced s fillIndex width dst dstRowBytes height y mem))
      else (kSuccess, rows, mem))"
  by pat_completeness auto
termination
  by (relation "measure (\<lambda>(s, fillIndex, width, dst, dstRowBytes, height, y, rows, mem).
        unat height - y)") auto

text \<open>
  The loop of the standard branch of \<^verbatim>\<open>onGetPixels\<close>, from row \<open>y\<close> on, with the
  pointer \<open>dstRow\<close>; \<open>dstWidth\<close> is \<^verbatim>\<open>dstInfo.width()\<close>, which \<^verbatim>\<open>Fill\<close> uses.
\<close>

function decode_standard ::
  "SkSwizzler \<Rightarrow> uint32_t \<Rightarrow> color_cell list \<Rightarrow> nat \<Rightarrow> nat \<Rightarrow> nat \<Rightarrow> uint32_t \<Rightarrow> nat \<Rightarrow> nat
    \<Rightarrow> uint8_t list list \<Rightarrow> pixels \<Rightarrow> Result \<times> uint8_t list list \<times> pixels" where
  "decode_standard s fillIndex colorPtr width dstWidth dstRowBytes height y dstRow rows mem =
     (if y < unat height
      then (case readRow rows width of
              (kSuccess, rows', src) \<Rightarrow>
                decode_standard s fillIndex colorPtr width dstWidth dstRowBytes height (y + 1)
                  (dstRow + dstRowBytes) rows' (swizzle s dstRow src mem)
            | (_, rows', src) \<Rightarrow>
                (kIncompleteInput, rows',
                 Fill mem dstRow dstWidth dstRowBytes (height - word_of_nat y) fillIndex colorPtr))
      else (kSuccess, rows, mem))"
  by pat_completeness auto
termination
  by (relation "measure (\<lambda>(s, fillIndex, colorPtr, width, dstWidth, dstRowBytes, height, y,
        dstRow, rows, mem). unat height - y)") auto

text \<open>
  \<^verbatim>\<open>SkCodec::Result SkGifCodec::onGetPixels(dstInfo, dst, dstRowBytes, opts,
  inputColorPtr, inputColorCount)\<close>. The result is the status, the codec and the
  decompressor after the call, and the destination.
\<close>

definition onGetPixels ::
  "SkGifCodec \<Rightarrow> DecodeEnv \<Rightarrow> SkImageInfo \<Rightarrow> nat \<Rightarrow> int option \<Rightarrow> uint8_t list list \<Rightarrow> pixels
    \<Rightarrow> Result \<times> SkGifCodec \<times> uint8_t list list \<times> pixels" where
  "onGetPixels c env dstInfo dstRowBytes inputColorCount rows mem =
     (let (result, c, inputColorCount) = prepareToDecode c env inputColorCount
      in if kSuccess \<noteq> result then (result, c, rows, mem)
         else if (fWidth dstInfo, fHeight dstInfo) \<noteq> (fWidth (getInfo c), fHeight (getInfo c))
         then (kInvalidScale, c, rows, mem)
         else
           let swizzler =
                 (if fFrameIsSubset c
                  then initializeSwizzler c env (rect_width (fFrameDims c))
                  else initializeSwizzler c env (fWidth dstInfo))
           in case swizzler of
                None \<Rightarrow> (kUnimplemented, c, rows, mem)
              | Some s \<Rightarrow>
                  let colorPtr = get_color_ptr (fColorTable c);
                      mem =
                        (if fFrameIsSubset c
                         then Fill mem 0 (nat (fWidth dstInfo)) dstRowBytes
                                (word_of_int (fHeight (getInfo c))) (fFillIndex c) colorPtr
                         else mem);
                      dst =
                        (if fFrameIsSubset c
                         then dstRowBytes * nat (fTop (fFrameDims c)) + nat (fLeft (fFrameDims c))
                         else 0);
                      width = (word_of_int (rect_width (fFrameDims c)) :: uint32_t);
                      height = (word_of_int (rect_height (fFrameDims c)) :: uint32_t);
                      (result, rows, mem) =
                        (if Interlace (Image (fGif c))
                         then decode_interlaced s (fFillIndex c) (unat width) dst dstRowBytes
                                height 0 rows mem
                         else decode_standard s (fFillIndex c) colorPtr (unat width)
                                (nat (fWidth dstInfo)) dstRowBytes height 0 dst rows mem)
                  in (result, c, rows, mem))"

section \<open>The scanline decoder\<close>

text \<open>
  \<^verbatim>\<open>class SkGifScanlineDecoder\<close>: the codec it owns, \<^verbatim>\<open>fCodec->fSwizzler\<close> (\<open>None\<close> for a
  null pointer), and the two values it reads from its base class: \<^verbatim>\<open>this->dstInfo()\<close>, here
  \<open>fDstInfo\<close>, and
  the row cursor \<^verbatim>\<open>INHERITED::onGetY()\<close>.
\<close>

record SkGifScanlineDecoder =
  fCodec :: SkGifCodec
  fSwizzler :: "SkSwizzler option"
  fDstInfo :: SkImageInfo
  fCurrScanline :: int

text \<open>\<^verbatim>\<open>SkCodec::Result onStart(dstInfo, opts, inputColorPtr, inputColorCount)\<close>\<close>

definition onStart ::
  "SkGifScanlineDecoder \<Rightarrow> DecodeEnv \<Rightarrow> SkImageInfo \<Rightarrow> int option
    \<Rightarrow> Result \<times> SkGifScanlineDecoder \<times> int option" where
  "onStart d env dstInfo inputColorCount =
     (let (result, c, inputColorCount) = prepareToDecode (fCodec d) env inputColorCount;
          d = d\<lparr>fCodec := c\<rparr>
      in if kSuccess \<noteq> result then (result, d, inputColorCount)
         else if (fWidth dstInfo, fHeight dstInfo) \<noteq> (fWidth (getInfo c), fHeight (getInfo c))
                 \<and> \<not> sampling_supported env
         then (kInvalidScale, d, inputColorCount)
         else
           let swizzler =
                 (if fFrameIsSubset c
                  then initializeSwizzler c env (scaled_dimension env (rect_width (fFrameDims c)))
                  else initializeSwizzler c env (fWidth dstInfo))
           in case swizzler of
                None \<Rightarrow> (kUnimplemented, d, inputColorCount)
              | Some s \<Rightarrow> (kSuccess, d\<lparr>fSwizzler := Some s\<rparr>, inputColorCount))"

text \<open>
  Modelled from the spec: the base class \<^verbatim>\<open>SkScanlineDecoder\<close> is not part of the sources
  at hand. Its \<open>start(targetInfo)\<close> "performs geometry/color-table setup" and "returns
  without filling"; the session then holds the target info and a row cursor at the first
  row.
\<close>

definition start ::
  "SkGifScanlineDecoder \<Rightarrow> DecodeEnv \<Rightarrow> SkImageInfo \<Rightarrow> int option
    \<Rightarrow> Result \<times> SkGifScanlineDecoder \<times> int option" where
  "start d env info inputColorCount =
     (let (result, d, inputColorCount) = onStart d env info inputColorCount
      in if kSuccess \<noteq> result then (result, d, inputColorCount)
         else (kSuccess, d\<lparr>fDstInfo := info, fCurrScanline := 0\<rparr>, inputColorCount))"

text \<open>
  \<^verbatim>\<open>int onGetY() const\<close>; the conversions between \<^verbatim>\<open>int\<close> and \<^verbatim>\<open>uint32_t\<close> are
  written out.
\<close>

definition onGetY :: "SkGifScanlineDecoder \<Rightarrow> int" where
  "onGetY d =
     (if Interlace (Image (fGif (fCodec d)))
      then sint (get_output_row_interlaced (word_of_int (fCurrScanline d))
                   (word_of_int (fHeight (fDstInfo d))))
      else fCurrScanline d)"

text \<open>
  Modelled from the spec: \<^verbatim>\<open>getY()\<close> of the base class, the \<open>currentOutputRow()\<close> that
  "reports the next row's output position (post-interlace-mapping)", which is what
  \<^verbatim>\<open>onGetY\<close> returns.
\<close>

definition getY :: "SkGifScanlineDecoder \<Rightarrow> int" where
  "getY d = onGetY d"

text \<open>
  The loop \<^verbatim>\<open>for (int i = 0; i < count; i++)\<close> of \<^verbatim>\<open>onGetScanlines\<close>, from \<open>i\<close> on.
  The result is \<open>None\<close> when a row has been read and there is no swizzler to write it.
\<close>

function decode_scanlines ::
  "SkSwizzler option \<Rightarrow> uint32_t \<Rightarrow> color_cell list \<Rightarrow> nat \<Rightarrow> nat \<Rightarrow> nat \<Rightarrow> int \<Rightarrow> nat \<Rightarrow> nat
    \<Rightarrow> uint8_t list list \<Rightarrow> pixels \<Rightarrow> (Result \<times> uint8_t list list \<times> pixels) option" where
  "decode_scanlines s fillIndex colorPtr width dstWidth rowBytes count i dst rows mem =
     (if int i < count
      then (case readRow rows width of
              (kSuccess, rows', src) \<Rightarrow>
                (case s of
                   None \<Rightarrow> None
                 | Some swizzler \<Rightarrow>
                     decode_scanlines s fillIndex colorPtr width dstWidth rowBytes count (i + 1)
                       (dst + rowBytes) rows' (swizzle swizzler dst src mem))
            | (_, rows', src) \<Rightarrow>
                Some (kIncompleteInput, rows',
                      Fill mem dst dstWidth rowBytes (word_of_int (count - int i)) fillIndex
                        colorPtr))
      else Some (kSuccess, rows, mem))"
  by pat_completeness auto
termination
  by (relation "measure (\<lambda>(s, fillIndex, colorPtr, width, dstWidth, rowBytes, count, i, dst,
        rows, mem). nat (count - int i))") auto

text \<open>
  \<^verbatim>\<open>SkCodec::Result onGetScanlines(void* dst, int count, size_t rowBytes)\<close>. The result
  is the status, the decompressor after the call, and the destination.
  \<^verbatim>\<open>SkTMin(0, n)\<close> is the smaller of 0 and \<open>n\<close>.
\<close>

definition onGetScanlines ::
  "SkGifScanlineDecoder \<Rightarrow> nat \<Rightarrow> int \<Rightarrow> nat \<Rightarrow> uint8_t list list \<Rightarrow> pixels
    \<Rightarrow> (Result \<times> uint8_t list list \<times> pixels) option" where
  "onGetScanlines d dst count rowBytes rows mem =
     (let c = fCodec d;
          colorPtr = get_color_ptr (fColorTable c);
          (mem, count, dst) =
            (if fFrameIsSubset c
             then
               let mem = Fill mem dst (nat (fWidth (fDstInfo d))) rowBytes (word_of_int count)
                           (fFillIndex c) colorPtr;
                   rowsBeforeFrame = fTop (fFrameDims c) - getY d;
                   (count, dst) =
                     (if rowsBeforeFrame > 0
                      then (min 0 (count - rowsBeforeFrame), dst + rowBytes * nat rowsBeforeFrame)
                      else (count, dst));
                   rowsAfterFrame = getY d + count - fBottom (fFrameDims c);
                   count = (if rowsAfterFrame > 0 then min 0 (count - rowsAfterFrame) else count)
               in (mem, count, dst + nat (fLeft (fFrameDims c)))
             else (mem, count, dst))
      in decode_scanlines (fSwizzler d) (fFillIndex c) colorPtr (nat (rect_width (fFrameDims c)))
           (nat (fWidth (fDstInfo d))) rowBytes count 0 dst rows mem)"

text \<open>
  The rows a call of \<^verbatim>\<open>onGetScanlines\<close> at the cursor \<open>y\<close> for \<open>count\<close> rows has in
  common with the frame, in the words of the specification ("decodes exactly the in-frame
  portion of the rows requested in that call"): how many they are.
\<close>

definition in_frame_rows :: "SkIRect \<Rightarrow> int \<Rightarrow> int \<Rightarrow> int" where
  "in_frame_rows frame y count = max 0 (min (y + count) (fBottom frame) - max y (fTop frame))"

subsection \<open>Example decodes\<close>

text \<open>
  An environment in which every outside check passes and nothing is scaled; a destination
  that has not been written; \<open>n\<close> rows of width \<open>w\<close> of the palette index 1, white in the
  palette of two colours.
\<close>

definition decode_env_ok :: DecodeEnv where
  "decode_env_ok =
     \<lparr>rewound = True, opts_fSubset = False, conversion_possible = True,
      swizzler_created = True, sampling_supported = True, scaled_dimension = (\<lambda>w. w)\<rparr>"

definition unwritten :: pixels where
  "unwritten = (\<lambda>a. None)"

definition white_rows :: "nat \<Rightarrow> nat \<Rightarrow> uint8_t list list" where
  "white_rows n w = replicate n (replicate w 1)"

text \<open>
  The frame at (2, 3) of the size 4 by 4 on the screen of 10 by 10 pixels, plain and
  interlaced, and the codec a stream with that frame and no transparency gives.
\<close>

definition subset_frame :: "bool \<Rightarrow> GifImageDesc" where
  "subset_frame interlace =
     \<lparr>Left = 2, Top = 3, Width = 4, Height = 4, Interlace = interlace, ColorMap = None\<rparr>"

definition subset_codec :: "bool \<Rightarrow> SkGifCodec" where
  "subset_codec interlace =
     new_SkGifCodec canvas_10x10 (gif_10x10 (subset_frame interlace)) SK_MaxU32"

text \<open>The scanline decoder of that codec, new and after a successful \<open>start\<close>.\<close>

definition new_SkGifScanlineDecoder :: "SkImageInfo \<Rightarrow> SkGifCodec \<Rightarrow> SkGifScanlineDecoder" where
  "new_SkGifScanlineDecoder srcInfo codec =
     \<lparr>fCodec = codec, fSwizzler = None, fDstInfo = srcInfo, fCurrScanline = - 1\<rparr>"

definition subset_session :: SkGifScanlineDecoder where
  "subset_session =
     fst (snd (start (new_SkGifScanlineDecoder canvas_10x10 (subset_codec False))
                 decode_env_ok canvas_10x10 None))"

text \<open>
  The bulk decode of that frame into an unwritten destination of 10 by 10 pixels, with
  \<open>k\<close> rows of the frame delivered before the decompressor fails.
\<close>

definition subset_decode ::
  "bool \<Rightarrow> nat \<Rightarrow> Result \<times> SkGifCodec \<times> uint8_t list list \<times> pixels" where
  "subset_decode interlace k =
     onGetPixels (subset_codec interlace) decode_env_ok canvas_10x10 10 None (white_rows k 4)
       unwritten"

section \<open>Properties of the interlace row mapping\<close>

lemma ceil_upper8: "h \<le> 8 * ((h + 7) div 8)" for h :: nat by arith
lemma ceil_upper4: "h \<le> 4 * ((h + 3) div 4)" for h :: nat by arith
lemma ceil_upper2: "h \<le> 2 * ((h + 1) div 2)" for h :: nat by arith
lemma ceil_lower8: "8 * ((h + 7) div 8) < h + 8" for h :: nat by arith
lemma ceil_lower4: "4 * ((h + 3) div 4) < h + 4" for h :: nat by arith
lemma ceil_lower2: "2 * ((h + 1) div 2) < h + 2" for h :: nat by arith

lemma pass2_start: "\<not> r * 8 < h \<Longrightarrow> (h + 7) div 8 \<le> r" for r h :: nat
  using ceil_lower8 [of h] by linarith
lemma pass3_start: "\<not> r * 4 < h \<Longrightarrow> (h + 3) div 4 \<le> r" for r h :: nat
  using ceil_lower4 [of h] by linarith
lemma pass4_start: "\<not> r * 2 < h \<Longrightarrow> (h + 1) div 2 \<le> r" for r h :: nat
  using ceil_lower2 [of h] by linarith

lemma pass_bound_gen:
  fixes c d h n :: nat
  assumes "h \<le> 2 * n * c" "(c + d) * n < h"
  shows "n + 2 * n * d < h"
proof -
  have "\<not> c \<le> d"
  proof
    assume "c \<le> d"
    then have "c * n \<le> d * n" by simp
    then have "2 * n * c \<le> (c + d) * n" by (simp add: algebra_simps)
    with assms show False by linarith
  qed
  then have "d + 1 \<le> c" by simp
  then have "(d + 1) * n \<le> c * n" by (rule mult_le_mono1)
  then have "2 * n * d + n \<le> (c + d) * n" by (simp add: algebra_simps)
  with assms(2) show ?thesis by linarith
qed

lemma pass2_bound:
  fixes d h :: nat
  assumes "((h + 7) div 8 + d) * 4 < h"
  shows "4 + 8 * d < h"
  using pass_bound_gen [of h 4 "(h + 7) div 8" d] assms ceil_upper8 [of h] by simp

lemma pass3_bound:
  fixes d h :: nat
  assumes "((h + 3) div 4 + d) * 2 < h"
  shows "2 + 4 * d < h"
  using pass_bound_gen [of h 2 "(h + 3) div 4" d] assms ceil_upper4 [of h] by simp

lemma pass4_bound:
  fixes d h :: nat
  assumes "(h + 1) div 2 + d < h"
  shows "1 + 2 * d < h"
  using pass_bound_gen [of h 1 "(h + 1) div 2" d] assms ceil_upper2 [of h] by simp

text \<open>The four passes, with the nat subtraction of the definition removed.\<close>

lemma interlace_nat_cases:
  assumes "r < h"
  obtains (pass1) "r * 8 < h" "interlace_nat r h = 8 * r"
  | (pass2) d where "r = (h + 7) div 8 + d" "interlace_nat r h = 4 + 8 * d" "4 + 8 * d < h"
  | (pass3) d where "r = (h + 3) div 4 + d" "interlace_nat r h = 2 + 4 * d" "2 + 4 * d < h"
  | (pass4) d where "r = (h + 1) div 2 + d" "interlace_nat r h = 1 + 2 * d" "1 + 2 * d < h"
proof (cases "r * 8 < h")
  case True
  then show thesis by (intro pass1) (simp_all add: interlace_nat_def)
next
  case p1: False
  show thesis
  proof (cases "r * 4 < h")
    case True
    from pass2_start [OF p1] obtain d where d: "r = (h + 7) div 8 + d"
      using le_Suc_ex by blast
    have "interlace_nat r h = 4 + 8 * (r - (h + 7) div 8)"
      using p1 True by (simp add: interlace_nat_def)
    then have "interlace_nat r h = 4 + 8 * d" by (simp add: d)
    moreover have "4 + 8 * d < h" using True unfolding d by (rule pass2_bound)
    ultimately show thesis using d by (intro pass2)
  next
    case p2: False
    show thesis
    proof (cases "r * 2 < h")
      case True
      from pass3_start [OF p2] obtain d where d: "r = (h + 3) div 4 + d"
        using le_Suc_ex by blast
      have "interlace_nat r h = 2 + 4 * (r - (h + 3) div 4)"
        using p1 p2 True by (simp add: interlace_nat_def)
      then have "interlace_nat r h = 2 + 4 * d" by (simp add: d)
      moreover have "2 + 4 * d < h" using True unfolding d by (rule pass3_bound)
      ultimately show thesis using d by (intro pass3)
    next
      case p3: False
      from pass4_start [OF p3] obtain d where d: "r = (h + 1) div 2 + d"
        using le_Suc_ex by blast
      have "interlace_nat r h = 1 + 2 * (r - (h + 1) div 2)"
        using p1 p2 p3 by (simp add: interlace_nat_def)
      then have "interlace_nat r h = 1 + 2 * d" by (simp add: d)
      moreover have "1 + 2 * d < h" using assms unfolding d by (rule pass4_bound)
      ultimately show thesis using d by (intro pass4)
    qed
  qed
qed

lemma interlace_nat_less:
  assumes "r < h"
  shows "interlace_nat r h < h"
  using assms by (rule interlace_nat_cases) simp_all

lemma mod8_pass2: "(4 + 8 * d) mod 8 = 4" for d :: nat by simp
lemma mod8_pass3: "(2 + 4 * d) mod 8 \<noteq> 0" "(2 + 4 * d) mod 8 \<noteq> 4" "(2 + 4 * d) mod 4 = 2" for d :: nat
  by presburger+
lemma mod8_pass4: "(1 + 2 * d) mod 8 \<noteq> 0" "(1 + 2 * d) mod 8 \<noteq> 4" "(1 + 2 * d) mod 4 \<noteq> 2" for d :: nat
  by presburger+

lemma interlace_inv_nat:
  assumes "r < h"
  shows "interlace_inv (interlace_nat r h) h = r"
  using assms
proof (rule interlace_nat_cases)
  assume "interlace_nat r h = 8 * r"
  then show ?thesis unfolding interlace_inv_def by simp
next
  fix d assume "r = (h + 7) div 8 + d" "interlace_nat r h = 4 + 8 * d"
  then show ?thesis unfolding interlace_inv_def by simp
next
  fix d assume "r = (h + 3) div 4 + d" "interlace_nat r h = 2 + 4 * d"
  then show ?thesis unfolding interlace_inv_def using mod8_pass3 [of d] by simp
next
  fix d assume "r = (h + 1) div 2 + d" "interlace_nat r h = 1 + 2 * d"
  then show ?thesis unfolding interlace_inv_def using mod8_pass4 [of d] by simp
qed

lemma interlace_nat_bij: "bij_betw (\<lambda>r. interlace_nat r h) {..<h} {..<h}"
proof -
  have inj: "inj_on (\<lambda>r. interlace_nat r h) {..<h}"
    by (rule inj_on_inverseI [where g = "\<lambda>out. interlace_inv out h"])
      (simp add: interlace_inv_nat)
  have "(\<lambda>r. interlace_nat r h) ` {..<h} \<subseteq> {..<h}"
    by (auto simp: interlace_nat_less)
  then have "(\<lambda>r. interlace_nat r h) ` {..<h} = {..<h}"
    using inj by (intro endo_inj_surj) simp_all
  with inj show ?thesis by (simp add: bij_betw_def)
qed

subsection \<open>From words to natural numbers\<close>

lemma unat_word_of_nat_small:
  "n < 2 ^ 32 \<Longrightarrow> unat (word_of_nat n :: uint32_t) = n"
  by (simp add: unat_of_nat)

lemma unat_mult_small:
  fixes r :: uint32_t
  assumes "unat r * n < 2 ^ 32" "n < 2 ^ 32"
  shows "unat (r * word_of_nat n) = unat r * n"
proof -
  have "unat (word_of_nat n :: uint32_t) = n"
    using assms(2) by (rule unat_word_of_nat_small)
  then show ?thesis using assms(1) by (simp add: unat_word_ariths)
qed

lemma unat_ceil_div:
  fixes h :: uint32_t
  assumes "unat h \<le> 2 ^ 29" "0 < n" "n \<le> 8"
  shows "unat (ceil_div h (word_of_nat n)) = (unat h + n - 1) div n"
proof -
  have n: "unat (word_of_nat n :: uint32_t) = n"
    using assms by (intro unat_word_of_nat_small) simp
  have e: "h + word_of_nat n - 1 = (word_of_nat (unat h + n - 1) :: uint32_t)"
    using assms by (simp add: of_nat_diff)
  have "unat (h + word_of_nat n - 1) = unat (word_of_nat (unat h + n - 1) :: uint32_t)"
    by (simp only: e)
  also have "\<dots> = unat h + n - 1"
    using assms by (intro unat_word_of_nat_small) simp
  finally show ?thesis by (simp add: ceil_div_def unat_div n)
qed

lemma unat_affine:
  fixes r c :: uint32_t
  assumes "unat c \<le> unat r" "a + m * (unat r - unat c) < 2 ^ 32"
  shows "unat (word_of_nat a + word_of_nat m * (r - c)) = a + m * (unat r - unat c)"
proof -
  have "r - c = word_of_nat (unat r - unat c)"
    using assms(1) by (simp add: of_nat_diff)
  then have e: "word_of_nat a + word_of_nat m * (r - c)
      = (word_of_nat (a + m * (unat r - unat c)) :: uint32_t)"
    by simp
  show ?thesis
    by (simp only: e) (rule unat_word_of_nat_small [OF assms(2)])
qed

text \<open>
  Up to a height of \<open>2 ^ 29\<close> none of the products \<open>encodedRow * 8\<close> wraps, and the
  word-level function computes the mapping on natural numbers.
\<close>

lemma unat_get_output_row_interlaced:
  assumes h: "unat h \<le> 2 ^ 29" and r: "r < h"
  shows "unat (get_output_row_interlaced r h) = interlace_nat (unat r) (unat h)"
proof -
  have rh: "unat r < unat h" using r by (simp add: word_less_nat_alt)
  have m8: "unat (r * 8) = unat r * 8" using unat_mult_small [of r 8] rh h by simp
  have m4: "unat (r * 4) = unat r * 4" using unat_mult_small [of r 4] rh h by simp
  have m2: "unat (r * 2) = unat r * 2" using unat_mult_small [of r 2] rh h by simp
  have c8: "unat (ceil_div h 8) = (unat h + 7) div 8" using unat_ceil_div [of h 8] h by simp
  have c4: "unat (ceil_div h 4) = (unat h + 3) div 4" using unat_ceil_div [of h 4] h by simp
  have c2: "unat (ceil_div h 2) = (unat h + 1) div 2" using unat_ceil_div [of h 2] h by simp
  have L: "interlace_nat (unat r) (unat h) < unat h" using rh by (rule interlace_nat_less)
  show ?thesis
  proof (cases "unat r * 8 < unat h")
    case True
    then show ?thesis
      by (simp add: get_output_row_interlaced_def interlace_nat_def word_less_nat_alt m8)
  next
    case p1: False
    show ?thesis
    proof (cases "unat r * 4 < unat h")
      case True
      have le: "unat (ceil_div h 8) \<le> unat r" using pass2_start [OF p1] c8 by simp
      have "4 + 8 * (unat r - unat (ceil_div h 8)) < 2 ^ 32"
        using L p1 True h c8 by (simp add: interlace_nat_def)
      from unat_affine [OF le, of 4 8, OF this] show ?thesis
        using p1 True
        by (simp add: get_output_row_interlaced_def interlace_nat_def word_less_nat_alt m8 m4 c8)
    next
      case p2: False
      show ?thesis
      proof (cases "unat r * 2 < unat h")
        case True
        have le: "unat (ceil_div h 4) \<le> unat r" using pass3_start [OF p2] c4 by simp
        have "2 + 4 * (unat r - unat (ceil_div h 4)) < 2 ^ 32"
          using L p1 p2 True h c4 by (simp add: interlace_nat_def)
        from unat_affine [OF le, of 2 4, OF this] show ?thesis
          using p1 p2 True
          by (simp add: get_output_row_interlaced_def interlace_nat_def word_less_nat_alt
              m8 m4 m2 c4)
      next
        case p3: False
        have le: "unat (ceil_div h 2) \<le> unat r" using pass4_start [OF p3] c2 by simp
        have "1 + 2 * (unat r - unat (ceil_div h 2)) < 2 ^ 32"
          using L p1 p2 p3 h c2 by (simp add: interlace_nat_def)
        from unat_affine [OF le, of 1 2, OF this] show ?thesis
          using p1 p2 p3
          by (simp add: get_output_row_interlaced_def interlace_nat_def word_less_nat_alt
              m8 m4 m2 c2)
      qed
    qed
  qed
qed

lemma get_output_row_interlaced_less:
  assumes "unat h \<le> 2 ^ 29" "r < h"
  shows "get_output_row_interlaced r h < h"
proof -
  have "unat r < unat h" using assms(2) by (simp add: word_less_nat_alt)
  then have "interlace_nat (unat r) (unat h) < unat h" by (rule interlace_nat_less)
  then show ?thesis
    using unat_get_output_row_interlaced [OF assms] by (simp add: word_less_nat_alt)
qed

lemma get_output_row_interlaced_inj:
  assumes h: "unat h \<le> 2 ^ 29" and r: "r < h" and s: "s < h"
    and eq: "get_output_row_interlaced r h = get_output_row_interlaced s h"
  shows "r = s"
proof -
  have "interlace_nat (unat r) (unat h) = interlace_nat (unat s) (unat h)"
    using unat_get_output_row_interlaced [OF h r] unat_get_output_row_interlaced [OF h s] eq
    by simp
  then have "interlace_inv (interlace_nat (unat r) (unat h)) (unat h)
      = interlace_inv (interlace_nat (unat s) (unat h)) (unat h)"
    by simp
  then have "unat r = unat s"
    using r s by (simp add: interlace_inv_nat word_less_nat_alt)
  then show ?thesis by (simp add: word_unat_eq_iff)
qed

lemma pass_threshold_nat:
  fixes r h c n :: nat
  assumes "h \<le> n * c" "n * c < h + n"
  shows "r * n < h \<longleftrightarrow> r < c"
proof
  assume "r * n < h"
  with assms(1) have "n * r < n * c" by (simp only: mult.commute [of r n])
  then show "r < c" by simp
next
  assume "r < c"
  then have "r + 1 \<le> c" by simp
  then have "n * (r + 1) \<le> n * c" by (rule mult_le_mono2)
  with assms(2) show "r * n < h" by (simp add: mult.commute)
qed

lemma pass_thresholds_word:
  assumes h: "unat h \<le> 2 ^ 29" and r: "r < h"
  shows "r * 8 < h \<longleftrightarrow> r < ceil_div h 8"
    and "r * 4 < h \<longleftrightarrow> r < ceil_div h 4"
    and "r * 2 < h \<longleftrightarrow> r < ceil_div h 2"
proof -
  have rh: "unat r < unat h" using r by (simp add: word_less_nat_alt)
  have m8: "unat (r * 8) = unat r * 8" using unat_mult_small [of r 8] rh h by simp
  have m4: "unat (r * 4) = unat r * 4" using unat_mult_small [of r 4] rh h by simp
  have m2: "unat (r * 2) = unat r * 2" using unat_mult_small [of r 2] rh h by simp
  have c8: "unat (ceil_div h 8) = (unat h + 7) div 8" using unat_ceil_div [of h 8] h by simp
  have c4: "unat (ceil_div h 4) = (unat h + 3) div 4" using unat_ceil_div [of h 4] h by simp
  have c2: "unat (ceil_div h 2) = (unat h + 1) div 2" using unat_ceil_div [of h 2] h by simp
  show "r * 8 < h \<longleftrightarrow> r < ceil_div h 8"
    using pass_threshold_nat [OF ceil_upper8 ceil_lower8, of "unat r" "unat h"]
    by (simp add: word_less_nat_alt m8 c8)
  show "r * 4 < h \<longleftrightarrow> r < ceil_div h 4"
    using pass_threshold_nat [OF ceil_upper4 ceil_lower4, of "unat r" "unat h"]
    by (simp add: word_less_nat_alt m4 c4)
  show "r * 2 < h \<longleftrightarrow> r < ceil_div h 2"
    using pass_threshold_nat [OF ceil_upper2 ceil_lower2, of "unat r" "unat h"]
    by (simp add: word_less_nat_alt m2 c2)
qed

subsection \<open>The mapping is a bijection while the row products do not wrap\<close>

text \<open>
  The function multiplies on 32 bits. At the height \<open>2 ^ 29 + 1\<close> the product
  \<open>encodedRow * 8\<close> of the encoded row \<open>2 ^ 29\<close> wraps to 0, so this row is taken for a
  row of the first pass; the codec never passes such a height, its callers pass the height
  of a frame that fits the logical screen of a GIF stream, below \<open>2 ^ 16\<close>.
\<close>

lemma interlace_wraps_above_bound:
  "(0 :: uint32_t) < 536870913 \<and> (536870912 :: uint32_t) < 536870913
   \<and> (0 :: uint32_t) \<noteq> 536870912
   \<and> get_output_row_interlaced 0 536870913 = get_output_row_interlaced 536870912 536870913"
  by (simp add: get_output_row_interlaced_def)

text \<open>
  Claim C2: for every frame height \<open>h\<close> (of at most \<open>2 ^ 29\<close> rows, the heights on
  which the 32-bit products do not wrap; they include every height a GIF image descriptor
  can declare), the interlace row mapping restricted to the encoded rows below \<open>h\<close> is a
  bijection onto the output rows below \<open>h\<close>; in particular every encoded row below \<open>h\<close>
  is sent to an output row below \<open>h\<close>.
\<close>

theorem interlace_bijection:
  assumes "unat h \<le> 2 ^ 29"
  shows "bij_betw (\<lambda>r. get_output_row_interlaced r h) {r. r < h} {r. r < h}
    \<and> (\<forall>r. r < h \<longrightarrow> get_output_row_interlaced r h < h)"
proof -
  let ?f = "\<lambda>r. get_output_row_interlaced r h"
  have less: "?f r < h" if "r < h" for r
    using assms that by (rule get_output_row_interlaced_less)
  have inj: "inj_on ?f {r. r < h}"
    by (rule inj_onI) (simp, rule get_output_row_interlaced_inj [OF assms])
  have "?f ` {r. r < h} \<subseteq> {r. r < h}" using less by auto
  then have "?f ` {r. r < h} = {r. r < h}"
    using inj by (intro endo_inj_surj) simp_all
  with inj less show ?thesis by (simp add: bij_betw_def)
qed

theorem interlace_bijection_witness:
  "unat (9 :: uint32_t) \<le> 2 ^ 29
   \<and> bij_betw (\<lambda>r. get_output_row_interlaced r 9) {r. r < 9} {r. r < 9}
   \<and> map (\<lambda>r. get_output_row_interlaced r 9) [0, 1, 2, 3, 4, 5, 6, 7, 8]
       = [0, 8, 4, 2, 6, 1, 3, 5, 7]"
  using interlace_bijection [of 9]
  by (simp add: get_output_row_interlaced_def ceil_div_def)

subsection \<open>The passes of the mapping\<close>

text \<open>
  Against claim C8 as stated (pass sizes \<open>ceil(h/8)\<close>, \<open>ceil(h/8)\<close>, \<open>ceil(h/4)\<close>,
  \<open>ceil(h/2)\<close>): for a frame of height 2 the second encoded row belongs to the fourth
  pass and goes to output row 1, while the claimed sizes put it into the second pass, at
  output row 4.
\<close>

theorem interlace_pass_sizes_counterexample:
  "(1 :: uint32_t) < 2 \<and> get_output_row_interlaced 1 2 = 1 \<and> interlace_row_by_pass_sizes 1 2 = 4"
  by (simp add: get_output_row_interlaced_def interlace_row_by_pass_sizes_def ceil_div_def)

text \<open>
  Claim C8, amended: for every frame height \<open>h\<close> of at most \<open>2 ^ 29\<close> rows and every
  encoded row \<open>r\<close> below \<open>h\<close>, the pass of \<open>r\<close> is determined by the cumulative bounds
  \<open>ceil(h/8)\<close>, \<open>ceil(h/4)\<close>, \<open>ceil(h/2)\<close>, \<open>h\<close> (pass 1 holds the encoded rows below
  \<open>ceil(h/8)\<close>, pass 2 those below \<open>ceil(h/4)\<close>, pass 3 those below \<open>ceil(h/2)\<close>, pass 4
  the rest), and the output row is the offset of the pass plus its stride times the index
  of \<open>r\<close> within the pass, with strides 8, 8, 4, 2 and offsets 0, 4, 2, 1.
\<close>

theorem interlace_pass_thresholds:
  assumes "unat h \<le> 2 ^ 29" "r < h"
  shows "get_output_row_interlaced r h = interlace_row_by_thresholds r h"
  using pass_thresholds_word [OF assms]
  by (simp add: get_output_row_interlaced_def interlace_row_by_thresholds_def mult.commute)

theorem interlace_pass_thresholds_witness:
  "unat (9 :: uint32_t) \<le> 2 ^ 29 \<and> (3 :: uint32_t) < 9
   \<and> get_output_row_interlaced 3 9 = interlace_row_by_thresholds 3 9
   \<and> interlace_row_by_thresholds 3 9 = 2"
  using interlace_pass_thresholds [of 9 3]
  by (simp add: interlace_row_by_thresholds_def ceil_div_def)

section \<open>Properties of the colour table\<close>

subsection \<open>The two loops\<close>

lemma copy_palette_Suc:
  "copy_palette m (Suc n) cp =
     (copy_palette m n cp)[n := Some (palette_color m n)]"
  by (simp add: copy_palette_def)

lemma copy_palette_0: "copy_palette m 0 cp = cp"
  by (simp add: copy_palette_def)

lemma length_copy_palette [simp]: "length (copy_palette m n cp) = length cp"
  by (induction n) (simp_all add: copy_palette_0 copy_palette_Suc)

lemma nth_copy_palette:
  assumes "j < length cp"
  shows "copy_palette m n cp ! j =
    (if j < n then Some (palette_color m j) else cp ! j)"
  using assms
  by (induction n) (auto simp: copy_palette_0 copy_palette_Suc nth_list_update less_Suc_eq)

lemma fill_unused_props:
  "length (fill_unused f a b cp) = length cp \<and>
   (\<forall>j < length cp. fill_unused f a b cp ! j =
      (if a \<le> j \<and> j < b then array_read cp f else cp ! j))"
proof (induction b)
  case 0
  show ?case by (simp add: fill_unused_def)
next
  case (Suc b)
  show ?case
  proof (cases "a \<le> b")
    case False
    then show ?thesis by (auto simp: fill_unused_def)
  next
    case True
    let ?t = "fill_unused f a b cp"
    have step: "fill_unused f a (Suc b) cp = ?t[b := array_read ?t f]"
      using True by (simp add: fill_unused_def)
    have rd: "array_read ?t f = array_read cp f"
      using Suc by (simp add: array_read_def)
    have len: "length ?t = length cp" using Suc by simp
    have "?t[b := array_read cp f] ! j =
        (if a \<le> j \<and> j < Suc b then array_read cp f else cp ! j)"
      if j: "j < length cp" for j
    proof (cases "j = b")
      case True
      with j len \<open>a \<le> b\<close> show ?thesis by simp
    next
      case False
      then have "?t[b := array_read cp f] ! j = ?t ! j" by simp
      also have "\<dots> = (if a \<le> j \<and> j < b then array_read cp f else cp ! j)"
        using Suc j by simp
      finally show ?thesis using False by (simp add: less_Suc_eq)
    qed
    then show ?thesis unfolding step rd using len by simp
  qed
qed

lemma length_fill_unused [simp]: "length (fill_unused f a b cp) = length cp"
  using fill_unused_props by blast

lemma nth_fill_unused:
  "j < length cp \<Longrightarrow>
   fill_unused f a b cp ! j = (if a \<le> j \<and> j < b then array_read cp f else cp ! j)"
  using fill_unused_props by blast

subsection \<open>The table built from a palette\<close>

lemma unat_word_of_int_small:
  "0 \<le> k \<Longrightarrow> k < 2 ^ 32 \<Longrightarrow> unat (word_of_int k :: uint32_t) = nat k"
  by (simp add: unat_eq_nat_uint uint_word_of_int take_bit_eq_mod del: unsigned_of_int)

lemma giflib_count:
  assumes "giflib_guarantees m"
  shows "unat (word_of_int (ColorCount m) :: uint32_t) = nat (ColorCount m)"
    and "0 < nat (ColorCount m)" and "nat (ColorCount m) \<le> 256"
    and "length (Colors m) = nat (ColorCount m)"
proof -
  have pos: "0 < ColorCount m" and le: "ColorCount m \<le> 256"
    and len: "int (length (Colors m)) = ColorCount m"
    using assms by (simp_all add: giflib_guarantees_def)
  show "unat (word_of_int (ColorCount m) :: uint32_t) = nat (ColorCount m)"
    using pos le by (intro unat_word_of_int_small) simp_all
  show "0 < nat (ColorCount m)" using pos by simp
  show "nat (ColorCount m) \<le> 256" using le by simp
  show "length (Colors m) = nat (ColorCount m)" using len by simp
qed

text \<open>The table and the fill index that the builder leaves, for a palette of giflib.\<close>

lemma initializeColorTable_palette:
  fixes c :: SkGifCodec and m :: ColorMapObject
  defines "cc \<equiv> (word_of_int (ColorCount m) :: uint32_t)"
    and "bg \<equiv> (word_of_int (SBackGroundColor (fGif c)) :: uint32_t)"
  defines "fill \<equiv> (if fTransIndex c < cc then fTransIndex c
                     else if bg < cc then bg else fFillIndex c)"
  assumes am: "active_color_map (fGif c) = Some m"
    and g: "giflib_guarantees m"
    and f0: "fFillIndex c < cc"
  shows "fFillIndex (fst (initializeColorTable c x)) = fill"
    and "fill < cc"
    and "i < 256 \<Longrightarrow> table_entry (fst (initializeColorTable c x)) i =
      (if fTransIndex c < cc \<and> (i = unat (fTransIndex c) \<or> nat (ColorCount m) \<le> i)
       then Some SK_ColorTRANSPARENT
       else if i < nat (ColorCount m) then Some (palette_color m i)
       else Some (palette_color m (unat (fFillIndex (fst (initializeColorTable c x))))))"
proof -
  let ?n = "nat (ColorCount m)"
  have n: "unat cc = ?n" "0 < ?n" "?n \<le> 256"
    using giflib_count [OF g] by (simp_all add: cc_def)
  have cm: "(case ColorMap (Image (fGif c)) of None \<Rightarrow> SColorMap (fGif c) | Some m \<Rightarrow> Some m)
      = Some m"
    using am by (simp add: active_color_map_def)
  define p0 where "p0 = copy_palette m ?n (replicate 256 None)"
  define p1 where "p1 = (if fTransIndex c < cc
    then p0[unat (fTransIndex c) := Some SK_ColorTRANSPARENT] else p0)"
  have res: "initializeColorTable c x =
      (c\<lparr>fFillIndex := fill, fColorTable := Some (fill_unused (unat fill) ?n 256 p1)\<rparr>,
       case x of None \<Rightarrow> None | Some _ \<Rightarrow> Some 256)"
    unfolding fill_def p1_def p0_def
    by (auto simp: initializeColorTable_def copy_color_table_def cm Let_def n cc_def [symmetric] bg_def [symmetric]
        split: option.splits)
  show ff: "fFillIndex (fst (initializeColorTable c x)) = fill" by (simp add: res)
  show fl: "fill < cc" using f0 by (simp add: fill_def)
  then have fn: "unat fill < ?n" using n by (simp add: word_less_nat_alt)
  have len0: "length p0 = 256" by (simp add: p0_def)
  have len1: "length p1 = 256" by (simp add: p1_def len0)
  have p0: "p0 ! j = (if j < ?n then Some (palette_color m j) else None)" if "j < 256" for j
    using that by (simp add: p0_def nth_copy_palette)
  have p1: "p1 ! j =
      (if fTransIndex c < cc \<and> j = unat (fTransIndex c) then Some SK_ColorTRANSPARENT
       else if j < ?n then Some (palette_color m j) else None)" if "j < 256" for j
    using that len0 by (simp add: p1_def p0 nth_list_update)
  have tn: "unat (fTransIndex c) < ?n" if "fTransIndex c < cc"
    using that n by (simp add: word_less_nat_alt)
  have f256: "unat fill < 256" using fn n by simp
  have rd: "array_read p1 (unat fill) =
      (if fTransIndex c < cc then Some SK_ColorTRANSPARENT
       else Some (palette_color m (unat fill)))"
  proof -
    have "array_read p1 (unat fill) = p1 ! unat fill"
      using len1 f256 by (simp add: array_read_def)
    also have "\<dots> = (if fTransIndex c < cc then Some SK_ColorTRANSPARENT
       else Some (palette_color m (unat fill)))"
    proof (cases "fTransIndex c < cc")
      case True
      then have "fill = fTransIndex c" by (simp add: fill_def)
      moreover have "unat (fTransIndex c) < 256" using tn [OF True] n by simp
      ultimately show ?thesis using True by (simp add: p1)
    next
      case False
      with fn show ?thesis by (simp add: p1 [OF f256])
    qed
    finally show ?thesis .
  qed
  show "table_entry (fst (initializeColorTable c x)) i =
      (if fTransIndex c < cc \<and> (i = unat (fTransIndex c) \<or> nat (ColorCount m) \<le> i)
       then Some SK_ColorTRANSPARENT
       else if i < nat (ColorCount m) then Some (palette_color m i)
       else Some (palette_color m (unat (fFillIndex (fst (initializeColorTable c x))))))"
    if i: "i < 256"
  proof -
    have "table_entry (fst (initializeColorTable c x)) i
        = fill_unused (unat fill) ?n 256 p1 ! i"
      using i len1 by (simp add: res table_entry_def array_read_def)
    also have "\<dots> = (if ?n \<le> i \<and> i < 256 then array_read p1 (unat fill) else p1 ! i)"
      using i len1 by (intro nth_fill_unused) simp
    finally show ?thesis
      using i tn by (auto simp: rd p1 ff)
  qed
qed

lemma SK_ColorTRANSPARENT_transparent [simp]: "fully_transparent (Some SK_ColorTRANSPARENT)"
  by (simp add: fully_transparent_def SK_ColorTRANSPARENT_def)

lemma palette_color_opaque [simp]: "\<not> fully_transparent (Some (palette_color m i))"
  by (simp add: fully_transparent_def palette_color_def)

lemma new_codec_fill_valid:
  assumes "giflib_guarantees m"
  shows "fFillIndex (new_SkGifCodec srcInfo gif t) < (word_of_int (ColorCount m) :: uint32_t)"
  using giflib_count [OF assms] by (simp add: new_SkGifCodec_def word_less_nat_alt)

lemma valid_index_iff:
  assumes "giflib_guarantees m"
  shows "(t < (word_of_int (ColorCount m) :: uint32_t)) \<longleftrightarrow> uint t < ColorCount m"
proof -
  have "0 \<le> ColorCount m" "ColorCount m < 2 ^ 32"
    using assms by (simp_all add: giflib_guarantees_def)
  then have "uint (word_of_int (ColorCount m) :: uint32_t) = ColorCount m"
    by (simp add: uint_word_of_int take_bit_eq_mod del: unsigned_of_int)
  then show ?thesis by (simp add: word_less_def)
qed

lemma black_white_ok: "giflib_guarantees black_white"
  by (simp add: giflib_guarantees_def black_white_def)

lemma initializeColorTable_no_palette:
  assumes "active_color_map (fGif c) = None" "fFillIndex c = 0"
  shows "fColorTable (fst (initializeColorTable c x)) = Some (replicate 256 None)"
proof -
  have cm: "(case ColorMap (Image (fGif c)) of None \<Rightarrow> SColorMap (fGif c) | Some m \<Rightarrow> Some m)
      = None"
    using assms(1) by (simp add: active_color_map_def)
  have "fill_unused 0 0 256 (replicate 256 None) = replicate 256 (None :: color_cell)"
    by (rule nth_equalityI) (simp_all add: nth_fill_unused array_read_def)
  then show ?thesis
    using assms(2) by (simp add: initializeColorTable_def cm Let_def)
qed

text \<open>
  Claim C5 (every input, also one with neither a local nor a global palette, yields a
  table whose 256 entries are all defined and, without a palette, all equal to the fill
  colour): the code at a stream without any palette. No cell of \<^verbatim>\<open>colorPtr\<close> has been
  written when the last loop copies \<^verbatim>\<open>colorPtr[fFillIndex]\<close>, that is \<^verbatim>\<open>colorPtr[0]\<close>,
  into all 256 cells, so every entry of the table is a copy of an uninitialised cell of the
  stack.
\<close>

theorem no_palette_table_undefined:
  "fColorTable (fst (initializeColorTable (new_SkGifCodec one_pixel_info gif_no_palette SK_MaxU32) None))
     = Some (replicate 256 None)"
  by (rule initializeColorTable_no_palette)
    (simp_all add: new_SkGifCodec_def gif_no_palette_def one_pixel_frame_def active_color_map_def)

text \<open>
  Against claim C9 as stated (the reported number is the colour count of the active
  palette, capped at 256): for the palette of two colours the number reported is 256, not
  2.
\<close>

theorem reported_count_counterexample:
  "snd (initializeColorTable (new_SkGifCodec one_pixel_info gif_background_1 SK_MaxU32) (Some 0)) = Some 256
   \<and> min (active_color_count gif_background_1) 256 = 2"
  by (simp add: initializeColorTable_def copy_color_table_def Let_def active_color_count_def
      active_color_map_def gif_background_1_def one_pixel_frame_def black_white_def)

text \<open>
  Claim C9, amended: for every run of the colour-table builder to which the caller passes
  a count, the number reported back is 256, the size of the table, whatever the colour count
  of the active palette is and also when there is no palette.
\<close>

theorem reported_count_256:
  "snd (initializeColorTable c (Some k)) = Some 256"
  by (simp add: initializeColorTable_def copy_color_table_def Let_def)

lemma fresh_codec_table:
  fixes gif :: GifFileType and m :: ColorMapObject and t :: uint32_t
    and srcInfo :: SkImageInfo and x :: "int option"
  defines "c' \<equiv> fst (initializeColorTable (new_SkGifCodec srcInfo gif t) x)"
  assumes am: "active_color_map gif = Some m" and g: "giflib_guarantees m"
  shows "uint (fFillIndex c') = preferred_fill_index gif t"
    and "unat (fFillIndex c') < nat (ColorCount m)"
    and "i < 256 \<Longrightarrow> table_entry c' i =
      (if uint t < ColorCount m \<and> (i = unat (fFillIndex c') \<or> nat (ColorCount m) \<le> i)
       then Some SK_ColorTRANSPARENT
       else if i < nat (ColorCount m) then Some (palette_color m i)
       else Some (palette_color m (unat (fFillIndex c'))))"
proof -
  let ?c = "new_SkGifCodec srcInfo gif t"
  let ?cc = "word_of_int (ColorCount m) :: uint32_t"
  let ?bg = "word_of_int (SBackGroundColor gif) :: uint32_t"
  have am': "active_color_map (fGif ?c) = Some m" using am by (simp add: new_SkGifCodec_def)
  have sel: "fTransIndex ?c = t" "fFillIndex ?c = 0" "fGif ?c = gif"
    by (simp_all add: new_SkGifCodec_def)
  note P = initializeColorTable_palette [OF am' g new_codec_fill_valid [OF g]]
  have fill: "fFillIndex c' = (if t < ?cc then t else if ?bg < ?cc then ?bg else 0)"
    unfolding c'_def P(1) sel ..
  show "uint (fFillIndex c') = preferred_fill_index gif t"
    by (simp add: fill preferred_fill_index_def active_color_count_def am valid_index_iff [OF g])
  have "fFillIndex c' < ?cc" using P(2) by (simp only: c'_def P(1))
  then show "unat (fFillIndex c') < nat (ColorCount m)"
    by (simp only: word_less_nat_alt giflib_count(1) [OF g])
  have tf: "unat t = unat (fFillIndex c')" if "uint t < ColorCount m"
    using that by (simp add: fill valid_index_iff [OF g])
  show "table_entry c' i =
      (if uint t < ColorCount m \<and> (i = unat (fFillIndex c') \<or> nat (ColorCount m) \<le> i)
       then Some SK_ColorTRANSPARENT
       else if i < nat (ColorCount m) then Some (palette_color m i)
       else Some (palette_color m (unat (fFillIndex c'))))" if "i < 256"
    unfolding c'_def P(3) [OF that] sel valid_index_iff [OF g]
    using tf by (auto simp: c'_def)
qed

lemma active_background_1 [simp]: "active_color_map gif_background_1 = Some black_white"
  by (simp add: active_color_map_def gif_background_1_def one_pixel_frame_def)

lemma active_background_5 [simp]: "active_color_map gif_background_5 = Some black_white"
  by (simp add: active_color_map_def gif_background_5_def one_pixel_frame_def)

lemma black_white_count [simp]: "ColorCount black_white = 2"
  by (simp add: black_white_def)

lemma example_backgrounds [simp]:
  "SBackGroundColor gif_background_1 = 1" "SBackGroundColor gif_background_5 = 5"
  by (simp_all add: gif_background_1_def gif_background_5_def)

lemma example_counts [simp]:
  "active_color_count gif_background_1 = 2" "active_color_count gif_background_5 = 2"
  by (simp_all add: active_color_count_def)

lemma example_preferred [simp]:
  "preferred_fill_index gif_background_1 SK_MaxU32 = 1"
  "preferred_fill_index gif_background_5 SK_MaxU32 = 0"
  "preferred_fill_index gif_background_1 1 = 1"
  by (simp_all add: preferred_fill_index_def SK_MaxU32_def)

lemma uint_fill_eq: "uint (w :: uint32_t) = 1 \<longleftrightarrow> w = 1" "uint w = 0 \<longleftrightarrow> w = 0"
  by (simp_all add: word_uint_eq_iff)

text \<open>
  Against claim C3 as stated (the fill index is fully transparent whenever a valid
  background index exists): with the palette of two colours, no transparency index and the
  valid background index 1, the fill index is 1 and the entry at 1 is the opaque second
  colour of the palette.
\<close>

theorem color_table_transparency_counterexample:
  "uint (word_of_int (SBackGroundColor gif_background_1) :: uint32_t)
     < active_color_count gif_background_1
   \<and> fFillIndex (fst (initializeColorTable (new_SkGifCodec one_pixel_info gif_background_1 SK_MaxU32) None)) = 1
   \<and> \<not> fully_transparent
        (table_entry (fst (initializeColorTable (new_SkGifCodec one_pixel_info gif_background_1 SK_MaxU32) None)) 1)"
proof -
  let ?c' = "fst (initializeColorTable (new_SkGifCodec one_pixel_info gif_background_1 SK_MaxU32) None)"
  note T = fresh_codec_table [OF active_background_1 black_white_ok,
      where srcInfo = one_pixel_info and t = SK_MaxU32 and x = None]
  have f: "fFillIndex ?c' = 1"
    using T(1) by (simp add: uint_fill_eq)
  have "table_entry ?c' 1 = Some (palette_color black_white 1)"
    using T(3) [of 1] by (simp add: SK_MaxU32_def)
  with f show ?thesis by simp
qed

text \<open>
  Claim C3, amended: for every input with an active palette as giflib delivers it, built
  by a new codec, all 256 entries of the table are defined; when the transparency index is
  valid (below the colour count of the palette), the fully transparent entries are the one
  at the fill index, which is then the transparency index, and those at the indices from
  the colour count on, and no other; when the transparency index is not valid, no entry is
  fully transparent, whether or not the background index is valid.
\<close>

theorem color_table_transparency:
  fixes gif :: GifFileType and m :: ColorMapObject and t :: uint32_t
    and srcInfo :: SkImageInfo and x :: "int option"
  defines "c' \<equiv> fst (initializeColorTable (new_SkGifCodec srcInfo gif t) x)"
  assumes "active_color_map gif = Some m" and "giflib_guarantees m"
  shows "(\<forall>i<256. table_entry c' i \<noteq> None)
    \<and> (\<forall>i<256. fully_transparent (table_entry c' i) \<longleftrightarrow>
          uint t < ColorCount m \<and> (i = unat (fFillIndex c') \<or> nat (ColorCount m) \<le> i))"
  unfolding c'_def using fresh_codec_table(3) [OF assms(2,3)] by simp

theorem color_table_transparency_witness:
  "active_color_map gif_background_1 = Some black_white \<and> giflib_guarantees black_white
   \<and> table_entry (fst (initializeColorTable (new_SkGifCodec one_pixel_info gif_background_1 1) None)) 0 \<noteq> None
   \<and> \<not> fully_transparent
        (table_entry (fst (initializeColorTable (new_SkGifCodec one_pixel_info gif_background_1 1) None)) 0)
   \<and> fully_transparent
        (table_entry (fst (initializeColorTable (new_SkGifCodec one_pixel_info gif_background_1 1) None)) 1)
   \<and> fully_transparent
        (table_entry (fst (initializeColorTable (new_SkGifCodec one_pixel_info gif_background_1 1) None)) 255)"
proof -
  let ?c' = "fst (initializeColorTable (new_SkGifCodec one_pixel_info gif_background_1 1) None)"
  note T = color_table_transparency [OF active_background_1 black_white_ok,
      where srcInfo = one_pixel_info and t = 1 and x = None]
  have "uint (fFillIndex ?c') = 1"
    using fresh_codec_table(1) [OF active_background_1 black_white_ok,
      where srcInfo = one_pixel_info and t = 1 and x = None]
    by simp
  then have f: "unat (fFillIndex ?c') = 1" by (simp add: uint_fill_eq)
  from T have a: "\<forall>i<256. table_entry ?c' i \<noteq> None"
    and b: "\<forall>i<256. fully_transparent (table_entry ?c' i) \<longleftrightarrow>
          uint (1 :: uint32_t) < ColorCount black_white \<and> (i = unat (fFillIndex ?c') \<or> nat (ColorCount black_white) \<le> i)"
    by blast+
  from a have "table_entry ?c' 0 \<noteq> None" by simp
  moreover from b f have "\<not> fully_transparent (table_entry ?c' 0)"
    "fully_transparent (table_entry ?c' 1)" "fully_transparent (table_entry ?c' 255)"
    by simp_all
  ultimately show ?thesis using black_white_ok by simp
qed

text \<open>
  Against claim C4 as stated (the entry at the fill index is marked fully transparent):
  with the palette of two colours, no transparency index and the background index 5, which
  is not an index of the palette, the fill index is 0 and the entry at 0 stays the opaque
  black of the palette.
\<close>

theorem fill_index_counterexample:
  "fFillIndex (fst (initializeColorTable (new_SkGifCodec one_pixel_info gif_background_5 SK_MaxU32) None)) = 0
   \<and> table_entry (fst (initializeColorTable (new_SkGifCodec one_pixel_info gif_background_5 SK_MaxU32) None)) 0
       = Some (SkPackARGB32 0xFF 0 0 0)
   \<and> \<not> fully_transparent
        (table_entry (fst (initializeColorTable (new_SkGifCodec one_pixel_info gif_background_5 SK_MaxU32) None)) 0)"
proof -
  let ?c' = "fst (initializeColorTable (new_SkGifCodec one_pixel_info gif_background_5 SK_MaxU32) None)"
  note T = fresh_codec_table [OF active_background_5 black_white_ok,
      where srcInfo = one_pixel_info and t = SK_MaxU32 and x = None]
  have f: "fFillIndex ?c' = 0"
    using T(1) by (simp add: uint_fill_eq)
  have "table_entry ?c' 0 = Some (palette_color black_white 0)"
    using T(3) [of 0] by (simp add: SK_MaxU32_def)
  with f show ?thesis
    by (simp add: palette_color_def black_white_def fully_transparent_def)
qed

text \<open>
  Claim C4, amended: for every input with an active palette as giflib delivers it, a new
  codec determines the fill index by the order of preference (the transparency index if it
  is below the colour count of the palette, else the background index if it is, else 0);
  the entry at the fill index is fully transparent exactly when the transparency index is
  valid, and keeps its opaque palette colour (alpha \<open>0xFF\<close> and the red, green and blue
  of the palette at the fill index) otherwise; every entry at an index from the
  colour count on equals the entry at the fill index; and every index from 0 to 255
  resolves to a defined colour.
\<close>

theorem fill_index_and_unused_entries:
  fixes gif :: GifFileType and m :: ColorMapObject and t :: uint32_t
    and srcInfo :: SkImageInfo and x :: "int option"
  defines "c' \<equiv> fst (initializeColorTable (new_SkGifCodec srcInfo gif t) x)"
  assumes "active_color_map gif = Some m" and "giflib_guarantees m"
  shows "uint (fFillIndex c') = preferred_fill_index gif t
    \<and> (fully_transparent (table_entry c' (unat (fFillIndex c'))) \<longleftrightarrow> uint t < ColorCount m)
    \<and> table_entry c' (unat (fFillIndex c'))
        = (if uint t < ColorCount m then Some SK_ColorTRANSPARENT
           else Some (SkPackARGB32 0xFF (Red (Colors m ! unat (fFillIndex c')))
                        (Green (Colors m ! unat (fFillIndex c')))
                        (Blue (Colors m ! unat (fFillIndex c')))))
    \<and> unat (fFillIndex c') < length (Colors m)
    \<and> (\<forall>i. nat (ColorCount m) \<le> i \<and> i < 256 \<longrightarrow>
          table_entry c' i = table_entry c' (unat (fFillIndex c')))
    \<and> (\<forall>i<256. table_entry c' i \<noteq> None)"
proof -
  note T = fresh_codec_table [OF assms(2,3), where srcInfo = srcInfo and t = t and x = x,
      folded c'_def]
  have fl: "unat (fFillIndex c') < length (Colors m)"
    using T(2) giflib_count(4) [OF assms(3)] by simp
  have f256: "unat (fFillIndex c') < 256"
    using T(2) giflib_count(3) [OF assms(3)] by simp
  have fe: "table_entry c' (unat (fFillIndex c')) =
      (if uint t < ColorCount m then Some SK_ColorTRANSPARENT
       else Some (palette_color m (unat (fFillIndex c'))))"
    using T(3) [OF f256] T(2) by simp
  show ?thesis
    using T(1) T(3) fl
    by (simp add: fe palette_color_def fully_transparent_def SK_ColorTRANSPARENT_def)
qed

theorem fill_index_and_unused_entries_witness:
  "active_color_map gif_background_5 = Some black_white \<and> giflib_guarantees black_white
   \<and> uint (fFillIndex (fst (initializeColorTable (new_SkGifCodec one_pixel_info gif_background_5 SK_MaxU32) None)))
       = 0
   \<and> preferred_fill_index gif_background_5 SK_MaxU32 = 0
   \<and> table_entry (fst (initializeColorTable (new_SkGifCodec one_pixel_info gif_background_5 SK_MaxU32) None)) 0
       = Some (SkPackARGB32 0xFF 0 0 0)
   \<and> table_entry (fst (initializeColorTable (new_SkGifCodec one_pixel_info gif_background_5 SK_MaxU32) None)) 2
       = table_entry (fst (initializeColorTable (new_SkGifCodec one_pixel_info gif_background_5 SK_MaxU32) None)) 0"
proof -
  let ?c' = "fst (initializeColorTable (new_SkGifCodec one_pixel_info gif_background_5 SK_MaxU32) None)"
  note T = fill_index_and_unused_entries [OF active_background_5 black_white_ok,
      where srcInfo = one_pixel_info and t = SK_MaxU32 and x = None]
  have p: "preferred_fill_index gif_background_5 SK_MaxU32 = 0" by simp
  from T have a: "uint (fFillIndex ?c') = preferred_fill_index gif_background_5 SK_MaxU32"
    and b: "\<forall>i. nat (ColorCount black_white) \<le> i \<and> i < 256 \<longrightarrow>
          table_entry ?c' i = table_entry ?c' (unat (fFillIndex ?c'))"
    and e: "table_entry ?c' (unat (fFillIndex ?c'))
        = (if uint SK_MaxU32 < ColorCount black_white then Some SK_ColorTRANSPARENT
           else Some (SkPackARGB32 0xFF (Red (Colors black_white ! unat (fFillIndex ?c')))
                        (Green (Colors black_white ! unat (fFillIndex ?c')))
                        (Blue (Colors black_white ! unat (fFillIndex ?c')))))"
    by blast+
  from a p have f: "unat (fFillIndex ?c') = 0" by (simp add: uint_fill_eq)
  from b f have "table_entry ?c' 2 = table_entry ?c' 0" by simp
  moreover from e f have "table_entry ?c' 0 = Some (SkPackARGB32 0xFF 0 0 0)"
    by (simp add: SK_MaxU32_def black_white_def)
  ultimately show ?thesis using a p black_white_ok by simp
qed

section \<open>Properties of the frame geometry\<close>

lemma resolve_axis_inside:
  assumes "0 < canvas" "0 < extent"
  shows "0 \<le> fst (resolve_axis pos extent canvas)"
    and "0 < snd (resolve_axis pos extent canvas)"
    and "fst (resolve_axis pos extent canvas) + snd (resolve_axis pos extent canvas) \<le> canvas"
  using assms by (simp_all add: resolve_axis_def)

lemma setFrameDimensions_fails:
  "fst (setFrameDimensions c desc) \<longleftrightarrow> 0 < Width desc \<and> 0 < Height desc"
  by (auto simp: setFrameDimensions_def Let_def split_def)

lemma int32_id: "in_int32 k \<Longrightarrow> int32 k = k"
  unfolding int32_def in_int32_def by (simp add: mod_pos_pos_trivial)

lemma axis_int32:
  assumes "0 < w" "0 < W" "W \<le> 2147483647" "- 2147483648 \<le> l" "l + w \<le> 2147483647"
  shows "(if w > W then (W, 0)
          else if int32 (l + w) > W then (w, int32 (W - w))
          else if l < 0 then (w, 0)
          else (w, l))
       = (snd (resolve_axis l w W), fst (resolve_axis l w W))"
proof (cases "w > W")
  case True
  then show ?thesis by (simp add: resolve_axis_def)
next
  case False
  have "in_int32 (l + w)" using assms by (simp add: in_int32_def)
  then have a: "int32 (l + w) = l + w" by (rule int32_id)
  have "in_int32 (W - w)" using assms False by (simp add: in_int32_def)
  then have b: "int32 (W - w) = W - w" by (rule int32_id)
  show ?thesis using False by (simp add: a b resolve_axis_def)
qed

lemma setFrameDimensions_axes:
  assumes ok: "fst (setFrameDimensions c desc)"
    and canvas: "0 < fWidth (getInfo c)" "0 < fHeight (getInfo c)"
    and range: "no_overflow c desc"
  shows "fFrameDims (snd (setFrameDimensions c desc)) =
      \<lparr>fLeft = fst (resolve_axis (Left desc) (Width desc) (fWidth (getInfo c))),
       fTop = fst (resolve_axis (Top desc) (Height desc) (fHeight (getInfo c))),
       fRight = fst (resolve_axis (Left desc) (Width desc) (fWidth (getInfo c)))
                + snd (resolve_axis (Left desc) (Width desc) (fWidth (getInfo c))),
       fBottom = fst (resolve_axis (Top desc) (Height desc) (fHeight (getInfo c)))
                 + snd (resolve_axis (Top desc) (Height desc) (fHeight (getInfo c)))\<rparr>"
proof -
  have pos: "0 < Width desc" "0 < Height desc"
    using ok unfolding setFrameDimensions_fails by auto
  have r: "fWidth (getInfo c) \<le> 2147483647" "fHeight (getInfo c) \<le> 2147483647"
    "- 2147483648 \<le> Left desc" "Left desc + Width desc \<le> 2147483647"
    "- 2147483648 \<le> Top desc" "Top desc + Height desc \<le> 2147483647"
    using range by (simp_all add: no_overflow_def)
  note X = axis_int32 [OF pos(1) canvas(1) r(1) r(3) r(4)]
  note Y = axis_int32 [OF pos(2) canvas(2) r(2) r(5) r(6)]
  note x = resolve_axis_inside [OF canvas(1) pos(1), of "Left desc"]
  note y = resolve_axis_inside [OF canvas(2) pos(2), of "Top desc"]
  let ?x = "fst (resolve_axis (Left desc) (Width desc) (fWidth (getInfo c)))"
  let ?w = "snd (resolve_axis (Left desc) (Width desc) (fWidth (getInfo c)))"
  let ?y = "fst (resolve_axis (Top desc) (Height desc) (fHeight (getInfo c)))"
  let ?h = "snd (resolve_axis (Top desc) (Height desc) (fHeight (getInfo c)))"
  have "in_int32 (?x + ?w)" using x r(1) by (simp add: in_int32_def)
  then have xw: "int32 (?x + ?w) = ?x + ?w" by (rule int32_id)
  have "in_int32 (?y + ?h)" using y r(2) by (simp add: in_int32_def)
  then have yh: "int32 (?y + ?h) = ?y + ?h" by (rule int32_id)
  have "\<not> (Width desc \<le> 0 \<or> Height desc \<le> 0)" using pos by simp
  then have "fFrameDims (snd (setFrameDimensions c desc)) = setXYWH ?x ?y ?w ?h"
    unfolding setFrameDimensions_def Let_def split_def X Y by simp
  then show ?thesis by (simp add: setXYWH_def xw yh)
qed

lemma rect_size_int32:
  assumes "0 \<le> w" "w \<le> 2147483647" "0 \<le> h" "h \<le> 2147483647"
  shows "rect_width \<lparr>fLeft = x, fTop = y, fRight = x + w, fBottom = y + h\<rparr> = w"
    and "rect_height \<lparr>fLeft = x, fTop = y, fRight = x + w, fBottom = y + h\<rparr> = h"
proof -
  have "in_int32 w" "in_int32 h" using assms by (simp_all add: in_int32_def)
  then show "rect_width \<lparr>fLeft = x, fTop = y, fRight = x + w, fBottom = y + h\<rparr> = w"
    and "rect_height \<lparr>fLeft = x, fTop = y, fRight = x + w, fBottom = y + h\<rparr> = h"
    by (simp_all add: rect_width_def rect_height_def int32_id)
qed

lemma setFrameDimensions_size:
  assumes ok: "fst (setFrameDimensions c desc)"
    and canvas: "0 < fWidth (getInfo c)" "0 < fHeight (getInfo c)"
    and range: "no_overflow c desc"
  shows "rect_width (fFrameDims (snd (setFrameDimensions c desc)))
       = snd (resolve_axis (Left desc) (Width desc) (fWidth (getInfo c)))"
    and "rect_height (fFrameDims (snd (setFrameDimensions c desc)))
       = snd (resolve_axis (Top desc) (Height desc) (fHeight (getInfo c)))"
proof -
  have pos: "0 < Width desc" "0 < Height desc"
    using ok unfolding setFrameDimensions_fails by auto
  have r: "fWidth (getInfo c) \<le> 2147483647" "fHeight (getInfo c) \<le> 2147483647"
    using range by (simp_all add: no_overflow_def)
  note x = resolve_axis_inside [OF canvas(1) pos(1), of "Left desc"]
  note y = resolve_axis_inside [OF canvas(2) pos(2), of "Top desc"]
  have b: "0 \<le> snd (resolve_axis (Left desc) (Width desc) (fWidth (getInfo c)))"
    "snd (resolve_axis (Left desc) (Width desc) (fWidth (getInfo c))) \<le> 2147483647"
    "0 \<le> snd (resolve_axis (Top desc) (Height desc) (fHeight (getInfo c)))"
    "snd (resolve_axis (Top desc) (Height desc) (fHeight (getInfo c))) \<le> 2147483647"
    using x y r by simp_all
  show "rect_width (fFrameDims (snd (setFrameDimensions c desc)))
       = snd (resolve_axis (Left desc) (Width desc) (fWidth (getInfo c)))"
    unfolding setFrameDimensions_axes [OF ok canvas range] by (rule rect_size_int32(1) [OF b])
  show "rect_height (fFrameDims (snd (setFrameDimensions c desc)))
       = snd (resolve_axis (Top desc) (Height desc) (fHeight (getInfo c)))"
    unfolding setFrameDimensions_axes [OF ok canvas range] by (rule rect_size_int32(2) [OF b])
qed

lemma setFrameDimensions_result:
  assumes "fst (setFrameDimensions c desc)"
  obtains dims where "setFrameDimensions c desc =
    (True, c\<lparr>fFrameDims := dims,
              fFrameIsSubset :=
                (if (fWidth (getInfo c), fHeight (getInfo c)) \<noteq> (rect_width dims, rect_height dims)
                 then True else fFrameIsSubset c)\<rparr>)"
proof -
  have "\<not> (Width desc \<le> 0 \<or> Height desc \<le> 0)"
    using assms unfolding setFrameDimensions_fails by auto
  then show thesis
    by (intro that) (simp add: setFrameDimensions_def Let_def split_def)
qed

lemma setFrameDimensions_subset:
  assumes "fst (setFrameDimensions c desc)"
    and "(rect_width (fFrameDims (snd (setFrameDimensions c desc))),
          rect_height (fFrameDims (snd (setFrameDimensions c desc))))
         \<noteq> (fWidth (getInfo c), fHeight (getInfo c))"
  shows "fFrameIsSubset (snd (setFrameDimensions c desc))"
proof -
  from assms(1) obtain dims where r: "setFrameDimensions c desc =
    (True, c\<lparr>fFrameDims := dims,
              fFrameIsSubset :=
                (if (fWidth (getInfo c), fHeight (getInfo c)) \<noteq> (rect_width dims, rect_height dims)
                 then True else fFrameIsSubset c)\<rparr>)"
    by (rule setFrameDimensions_result)
  show ?thesis using assms(2) unfolding r by auto
qed

lemma setFrameDimensions_getInfo:
  "getInfo (snd (setFrameDimensions c desc)) = getInfo c"
  by (simp add: setFrameDimensions_def Let_def split_def)

text \<open>
  The bound is needed: with the position \<open>2 ^ 31 - 1\<close> the sum
  \<^verbatim>\<open>frameLeft + frameWidth\<close> wraps around, no rule applies, and the region is left outside
  the canvas of 10 by 10 pixels.
\<close>

lemma setFrameDimensions_wraps:
  "fFrameDims (snd (setFrameDimensions
      (new_SkGifCodec canvas_10x10
         (gif_10x10 \<lparr>Left = 2147483647, Top = 0, Width = 5, Height = 5, Interlace = False,
                      ColorMap = None\<rparr>) SK_MaxU32)
      \<lparr>Left = 2147483647, Top = 0, Width = 5, Height = 5, Interlace = False, ColorMap = None\<rparr>))
   = \<lparr>fLeft = 2147483647, fTop = 0, fRight = - 2147483644, fBottom = 5\<rparr>"
  by (simp add: new_SkGifCodec_def canvas_10x10_def setFrameDimensions_def setXYWH_def
      rect_width_def rect_height_def int32_def Let_def)

text \<open>
  Claim C6: for every declared frame rectangle and every logical canvas (of positive
  width and height, as the header scan guarantees) on which the arithmetic of the
  resolver does not overflow 32 bits, the resolver fails exactly when the declared width
  or height is not positive; otherwise it applies to each axis, on its own, the first
  matching rule (a size above the canvas shrinks to the canvas and resets the position to
  0; else a frame ending beyond the canvas is shifted to end at the edge; else a negative
  position becomes 0), the resulting region lies within the canvas and has a positive
  size, and the flag \<open>fFrameIsSubset\<close> is true whenever the size of the region differs
  from the size of the canvas.
\<close>

theorem frame_geometry:
  fixes c :: SkGifCodec and desc :: GifImageDesc
  defines "ok \<equiv> fst (setFrameDimensions c desc)"
    and "c' \<equiv> snd (setFrameDimensions c desc)"
  assumes "0 < fWidth (getInfo c)" and "0 < fHeight (getInfo c)"
    and "no_overflow c desc"
  shows "(ok \<longleftrightarrow> \<not> (Width desc \<le> 0 \<or> Height desc \<le> 0))
    \<and> (ok \<longrightarrow>
         (fLeft (fFrameDims c'), rect_width (fFrameDims c'))
           = resolve_axis (Left desc) (Width desc) (fWidth (getInfo c))
       \<and> (fTop (fFrameDims c'), rect_height (fFrameDims c'))
           = resolve_axis (Top desc) (Height desc) (fHeight (getInfo c))
       \<and> 0 \<le> fLeft (fFrameDims c') \<and> 0 < rect_width (fFrameDims c')
       \<and> fRight (fFrameDims c') \<le> fWidth (getInfo c)
       \<and> 0 \<le> fTop (fFrameDims c') \<and> 0 < rect_height (fFrameDims c')
       \<and> fBottom (fFrameDims c') \<le> fHeight (getInfo c)
       \<and> ((rect_width (fFrameDims c'), rect_height (fFrameDims c'))
             \<noteq> (fWidth (getInfo c), fHeight (getInfo c)) \<longrightarrow> fFrameIsSubset c'))"
proof -
  have fails: "ok \<longleftrightarrow> \<not> (Width desc \<le> 0 \<or> Height desc \<le> 0)"
    unfolding ok_def setFrameDimensions_fails by auto
  have rest: "(fLeft (fFrameDims c'), rect_width (fFrameDims c'))
           = resolve_axis (Left desc) (Width desc) (fWidth (getInfo c))
       \<and> (fTop (fFrameDims c'), rect_height (fFrameDims c'))
           = resolve_axis (Top desc) (Height desc) (fHeight (getInfo c))
       \<and> 0 \<le> fLeft (fFrameDims c') \<and> 0 < rect_width (fFrameDims c')
       \<and> fRight (fFrameDims c') \<le> fWidth (getInfo c)
       \<and> 0 \<le> fTop (fFrameDims c') \<and> 0 < rect_height (fFrameDims c')
       \<and> fBottom (fFrameDims c') \<le> fHeight (getInfo c)
       \<and> ((rect_width (fFrameDims c'), rect_height (fFrameDims c'))
             \<noteq> (fWidth (getInfo c), fHeight (getInfo c)) \<longrightarrow> fFrameIsSubset c')" if ok
  proof -
    have pos: "0 < Width desc" "0 < Height desc" using that fails by auto
    note d = setFrameDimensions_axes [OF that [unfolded ok_def] assms(3,4,5), folded c'_def]
    note z = setFrameDimensions_size [OF that [unfolded ok_def] assms(3,4,5), folded c'_def]
    note x = resolve_axis_inside [OF assms(3) pos(1), of "Left desc"]
    note y = resolve_axis_inside [OF assms(4) pos(2), of "Top desc"]
    have sub: "(rect_width (fFrameDims c'), rect_height (fFrameDims c'))
             \<noteq> (fWidth (getInfo c), fHeight (getInfo c)) \<longrightarrow> fFrameIsSubset c'"
      using setFrameDimensions_subset [OF that [unfolded ok_def], folded c'_def] by blast
    have "fLeft (fFrameDims c') = fst (resolve_axis (Left desc) (Width desc) (fWidth (getInfo c)))"
      "fTop (fFrameDims c') = fst (resolve_axis (Top desc) (Height desc) (fHeight (getInfo c)))"
      "fRight (fFrameDims c') = fst (resolve_axis (Left desc) (Width desc) (fWidth (getInfo c)))
          + snd (resolve_axis (Left desc) (Width desc) (fWidth (getInfo c)))"
      "fBottom (fFrameDims c') = fst (resolve_axis (Top desc) (Height desc) (fHeight (getInfo c)))
          + snd (resolve_axis (Top desc) (Height desc) (fHeight (getInfo c)))"
      by (simp_all add: d)
    then show ?thesis
      using x y sub z by (simp add: prod_eq_iff)
  qed
  show ?thesis using fails rest by blast
qed

theorem frame_geometry_witness:
  "0 < fWidth (getInfo (new_SkGifCodec canvas_10x10 (gif_10x10 frame_out_of_place) SK_MaxU32))
   \<and> 0 < fHeight (getInfo (new_SkGifCodec canvas_10x10 (gif_10x10 frame_out_of_place) SK_MaxU32))
   \<and> no_overflow (new_SkGifCodec canvas_10x10 (gif_10x10 frame_out_of_place) SK_MaxU32)
        frame_out_of_place
   \<and> fst (setFrameDimensions
        (new_SkGifCodec canvas_10x10 (gif_10x10 frame_out_of_place) SK_MaxU32) frame_out_of_place)
   \<and> fFrameDims (snd (setFrameDimensions
        (new_SkGifCodec canvas_10x10 (gif_10x10 frame_out_of_place) SK_MaxU32) frame_out_of_place))
       = \<lparr>fLeft = 6, fTop = 0, fRight = 10, fBottom = 10\<rparr>
   \<and> resolve_axis 8 4 10 = (6, 4) \<and> resolve_axis (- 1) 20 10 = (0, 10)
   \<and> fFrameIsSubset (snd (setFrameDimensions
        (new_SkGifCodec canvas_10x10 (gif_10x10 frame_out_of_place) SK_MaxU32) frame_out_of_place))"
  using frame_geometry [of "new_SkGifCodec canvas_10x10 (gif_10x10 frame_out_of_place) SK_MaxU32"
      frame_out_of_place]
  by (simp add: new_SkGifCodec_def canvas_10x10_def frame_out_of_place_def resolve_axis_def
      setFrameDimensions_def setXYWH_def rect_width_def rect_height_def int32_def
      no_overflow_def Let_def)

section \<open>Properties of the header scan\<close>

lemma find_trans_index_from_append:
  "n \<le> length bs \<Longrightarrow> find_trans_index_from (bs @ cs) n = find_trans_index_from bs n"
  by (induction n) (simp_all add: nth_append Let_def)

lemma flag_bit: "(1 = x AND 1) \<longleftrightarrow> bit x 0" for x :: uint8_t
  by (auto simp: and_one_eq mod_2_eq_odd bit_0)

lemma find_trans_index_from_spec:
  assumes "list_all well_formed_block blocks"
  shows "find_trans_index_from blocks (length blocks) =
    (case transparency_of_blocks (rev blocks) of None \<Rightarrow> SK_MaxU32 | Some b \<Rightarrow> ucast b)"
  using assms
proof (induction blocks rule: rev_induct)
  case Nil
  show ?case by simp
next
  case (snoc b bs)
  from snoc.prems have bs: "list_all well_formed_block bs" and "well_formed_block b"
    by simp_all
  then have wf: "ByteCount b = int (length (Bytes b))"
    by (simp add: well_formed_block_def)
  have "find_trans_index_from (bs @ [b]) (length bs) = find_trans_index_from bs (length bs)"
    by (rule find_trans_index_from_append) simp
  then show ?case
    using snoc.IH [OF bs] wf by (auto simp: Let_def flag_bit)
qed


lemma fold_GifAddExtensionBlock:
  "fold (\<lambda>payload s. GifAddExtensionBlock s extFunction payload) payloads saveExt =
     \<lparr>ExtensionBlockCount = ExtensionBlockCount saveExt + int (length payloads),
      ExtensionBlocks = ExtensionBlocks saveExt
        @ map (\<lambda>payload. \<lparr>ByteCount = int (length payload), Bytes = payload,
                          Function = extFunction\<rparr>) payloads\<rparr>"
  by (induction payloads arbitrary: saveExt) (simp_all add: GifAddExtensionBlock_def)

lemma well_formed_blocks_before: "list_all well_formed_block (blocks_before_first_image recs)"
  by (induction recs rule: blocks_before_first_image.induct)
    (auto simp: well_formed_block_def list_all_iff)

lemma ReadUpToFirstImage_from_success:
  assumes "ReadUpToFirstImage_from saveExt recs = (kSuccess, t, rest)"
  shows "t = Some (find_trans_index
      \<lparr>ExtensionBlockCount = ExtensionBlockCount saveExt
          + int (length (blocks_before_first_image recs)),
       ExtensionBlocks = ExtensionBlocks saveExt @ blocks_before_first_image recs\<rparr>)"
  using assms
proof (induction saveExt recs rule: ReadUpToFirstImage_from.induct)
  case (3 saveExt extFunction payloads complete rest')
  then show ?case
    by (simp add: fold_GifAddExtensionBlock add.assoc split: if_splits)
qed (auto simp: find_trans_index_def)

lemma ReadUpToFirstImage_success:
  assumes "ReadUpToFirstImage recs = (kSuccess, t, rest)"
  shows "t = Some (case transparency_of_blocks (rev (blocks_before_first_image recs)) of
                     None \<Rightarrow> SK_MaxU32 | Some b \<Rightarrow> ucast b)"
proof -
  have "t = Some (find_trans_index_from (blocks_before_first_image recs)
                    (length (blocks_before_first_image recs)))"
    using ReadUpToFirstImage_from_success [OF assms [unfolded ReadUpToFirstImage_def]]
    by (simp add: find_trans_index_def)
  then show ?thesis
    by (simp add: find_trans_index_from_spec [OF well_formed_blocks_before])
qed

lemma ucast_byte_less_256: "(ucast (b :: uint8_t) :: uint32_t) < 256"
proof -
  have "uint (ucast b :: uint32_t) = uint b" by (simp add: uint_up_ucast is_up)
  moreover have "uint b < 256" using uint_lt2p [of b] by simp
  ultimately show ?thesis by (simp add: word_less_def)
qed

lemma ReadHeader_Some:
  assumes "ReadHeader stream = Some codec"
  obtains gif desc rest where
    "opened stream = Some gif"
    "ReadUpToFirstImage (records stream)
       = (kSuccess, Some (fTransIndex codec), IMAGE_DESC_RECORD (Some desc) # rest)"
    "fAlphaType (getInfo codec)
       = (if fTransIndex codec < 256 then kPremul_SkAlphaType else kOpaque_SkAlphaType)"
    "0 < fWidth (getInfo codec)" "0 < fHeight (getInfo codec)"
  using assms
  by (auto simp: ReadHeader_def new_SkGifCodec_def Let_def
      split: option.splits prod.splits Result.splits list.splits GifRecord.splits if_splits)

lemma SK_MaxU32_large: "255 < SK_MaxU32" "\<not> SK_MaxU32 < 256"
  by (simp_all add: SK_MaxU32_def)

text \<open>
  Claim C10: for every stream that \<^verbatim>\<open>ReadHeader\<close> accepts when it creates a codec, the
  transparency index of the codec is the one extracted from the extension blocks that
  precede the first image (the sentinel \<open>SK_MaxU32\<close> when they bear none); the alpha type
  of the image info is premultiplied exactly when that index is below 256, and opaque
  otherwise; the index is below 256 exactly when the blocks bear a transparency index,
  the sentinel being larger than 255.
\<close>

theorem header_alpha_type:
  fixes stream :: GifSource and codec :: SkGifCodec
  defines "found \<equiv> transparency_of_blocks (rev (blocks_before_first_image (records stream)))"
  assumes "ReadHeader stream = Some codec"
  shows "fTransIndex codec = (case found of None \<Rightarrow> SK_MaxU32 | Some b \<Rightarrow> ucast b)
    \<and> (fAlphaType (getInfo codec) = kPremul_SkAlphaType \<longleftrightarrow> fTransIndex codec < 256)
    \<and> (fAlphaType (getInfo codec) = kOpaque_SkAlphaType \<longleftrightarrow> \<not> fTransIndex codec < 256)
    \<and> (fTransIndex codec < 256 \<longleftrightarrow> found \<noteq> None)
    \<and> 255 < SK_MaxU32"
proof -
  from assms(2) obtain gif desc rest where
    scan: "ReadUpToFirstImage (records stream)
       = (kSuccess, Some (fTransIndex codec), IMAGE_DESC_RECORD (Some desc) # rest)"
    and alpha: "fAlphaType (getInfo codec)
       = (if fTransIndex codec < 256 then kPremul_SkAlphaType else kOpaque_SkAlphaType)"
    by (rule ReadHeader_Some)
  have t: "fTransIndex codec = (case found of None \<Rightarrow> SK_MaxU32 | Some b \<Rightarrow> ucast b)"
    using ReadUpToFirstImage_success [OF scan] by (simp add: found_def)
  have "fTransIndex codec < 256 \<longleftrightarrow> found \<noteq> None"
    unfolding t by (cases found) (simp_all add: SK_MaxU32_large ucast_byte_less_256)
  with t alpha show ?thesis by (simp add: SK_MaxU32_large)
qed

theorem header_alpha_type_witness:
  "ReadHeader stream_transparent_7 \<noteq> None
   \<and> fTransIndex (the (ReadHeader stream_transparent_7)) = 7
   \<and> fAlphaType (getInfo (the (ReadHeader stream_transparent_7))) = kPremul_SkAlphaType
   \<and> ReadHeader stream_opaque \<noteq> None
   \<and> fTransIndex (the (ReadHeader stream_opaque)) = SK_MaxU32
   \<and> fAlphaType (getInfo (the (ReadHeader stream_opaque))) = kOpaque_SkAlphaType"
proof -
  have r7: "records stream_transparent_7 =
      [EXTENSION_RECORD 0xf9 [[1, 0, 0, 7]] True, IMAGE_DESC_RECORD (Some one_pixel_frame)]"
    and ro: "records stream_opaque = [IMAGE_DESC_RECORD (Some one_pixel_frame)]"
    by (simp_all add: stream_transparent_7_def stream_opaque_def)
  have s7: "ReadUpToFirstImage (records stream_transparent_7) =
      (kSuccess, Some 7, [IMAGE_DESC_RECORD (Some one_pixel_frame)])"
    by (simp add: r7 ReadUpToFirstImage_def GifAddExtensionBlock_def find_trans_index_def
        GRAPHICS_EXT_FUNC_CODE_def Let_def)
  have so: "ReadUpToFirstImage (records stream_opaque) =
      (kSuccess, Some SK_MaxU32, [IMAGE_DESC_RECORD (Some one_pixel_frame)])"
    by (simp add: ro ReadUpToFirstImage_def find_trans_index_def)
  have o: "opened stream_transparent_7 = Some gif_screen_1x1"
    "opened stream_opaque = Some gif_screen_1x1"
    by (simp_all add: stream_transparent_7_def stream_opaque_def)
  obtain c7 where c7: "ReadHeader stream_transparent_7 = Some c7"
    by (simp add: ReadHeader_def o s7 gif_screen_1x1_def Let_def)
  obtain co where co: "ReadHeader stream_opaque = Some co"
    by (simp add: ReadHeader_def o so gif_screen_1x1_def Let_def)
  have f7: "transparency_of_blocks (rev (blocks_before_first_image (records stream_transparent_7)))
      = Some 7"
    by (simp add: r7 GRAPHICS_EXT_FUNC_CODE_def)
  have fo: "transparency_of_blocks (rev (blocks_before_first_image (records stream_opaque)))
      = None"
    by (simp add: ro)
  from header_alpha_type [OF c7] header_alpha_type [OF co] show ?thesis
    by (simp add: c7 co f7 fo SK_MaxU32_large)
qed

section \<open>Properties of the decoding loops\<close>

subsection \<open>Writing rows\<close>

lemma write_row_apply:
  "write_row mem p vals a = (if p \<le> a \<and> a < p + length vals then vals ! (a - p) else mem a)"
  by (simp add: write_row_def)

lemma fill_rows_apply:
  "fill_rows mem p w rb n color a =
     (if \<exists>j<n. p + j * rb \<le> a \<and> a < p + j * rb + w then color else mem a)"
proof (induction n arbitrary: mem p)
  case 0
  show ?case by simp
next
  case (Suc n)
  have split: "(\<exists>j<Suc n. p + j * rb \<le> a \<and> a < p + j * rb + w) \<longleftrightarrow>
      (p \<le> a \<and> a < p + w) \<or> (\<exists>j<n. p + rb + j * rb \<le> a \<and> a < p + rb + j * rb + w)"
    (is "?L \<longleftrightarrow> ?A \<or> ?B")
  proof
    assume ?L
    then obtain j where j: "j < Suc n" "p + j * rb \<le> a" "a < p + j * rb + w" by blast
    show "?A \<or> ?B"
    proof (cases j)
      case 0
      with j show ?thesis by simp
    next
      case (Suc i)
      with j have "i < n" "p + rb + i * rb \<le> a" "a < p + rb + i * rb + w" by simp_all
      then show ?thesis by blast
    qed
  next
    assume "?A \<or> ?B"
    then show ?L
    proof
      assume ?A
      then have "0 < Suc n" "p + 0 * rb \<le> a" "a < p + 0 * rb + w" by simp_all
      then show ?L by blast
    next
      assume ?B
      then obtain i where "i < n" "p + rb + i * rb \<le> a" "a < p + rb + i * rb + w" by blast
      then have "Suc i < Suc n" "p + Suc i * rb \<le> a" "a < p + Suc i * rb + w" by simp_all
      then show ?L by blast
    qed
  qed
  show ?case
    unfolding fill_rows.simps Suc.IH split by (auto simp: write_row_apply)
qed

lemma swizzle_apply:
  "swizzle s p src mem a =
     (if p \<le> a \<and> a < p + swz_dstWidth s
      then (if a - p < length src then array_read (swz_colorTable s) (unat (src ! (a - p)))
            else None)
      else mem a)"
proof (cases "p \<le> a \<and> a < p + swz_dstWidth s")
  case True
  then have 1: "p \<le> a" and 2: "a < p + swz_dstWidth s" and 3: "a - p < swz_dstWidth s"
    by linarith+
  have "swizzle s p src mem a =
      map (\<lambda>x. if x < length src then array_read (swz_colorTable s) (unat (src ! x)) else None)
        [0..<swz_dstWidth s] ! (a - p)"
    using 1 2 by (simp add: swizzle_def write_row_apply)
  also have "\<dots> = (if a - p < length src
      then array_read (swz_colorTable s) (unat (src ! (a - p))) else None)"
    using 3 by simp
  finally show ?thesis using 1 2 by simp
next
  case False
  then show ?thesis by (auto simp: swizzle_def write_row_apply)
qed

lemma readRow_Nil: "readRow [] width = (kIncompleteInput, [], [])"
  by (simp add: readRow_def)

lemma readRow_Cons:
  "readRow (r # rest) width =
     (if length r = width then (kSuccess, rest, r) else (kIncompleteInput, rest, []))"
  by (simp add: readRow_def)

lemma unat_height_minus:
  fixes height :: uint32_t
  assumes "y \<le> unat height"
  shows "unat (height - word_of_nat y) = unat height - y"
proof -
  have "unat height < 2 ^ 32" using unsigned_less [of height, where 'a = nat] by simp
  then have "y < 2 ^ 32" using assms by linarith
  then have y: "unat (word_of_nat y :: uint32_t) = y" by (rule unat_word_of_nat_small)
  then have le: "word_of_nat y \<le> height" using assms by (simp add: word_le_nat_alt)
  show ?thesis unfolding unat_sub [OF le] y by (rule refl)
qed

subsection \<open>The standard loop\<close>

declare decode_standard.simps [simp del] decode_interlaced.simps [simp del]

lemma decode_standard_Nil:
  "decode_standard s fillIndex colorPtr width dstWidth rb height y dstRow [] mem =
     (if y < unat height
      then (kIncompleteInput, [],
            Fill mem dstRow dstWidth rb (height - word_of_nat y) fillIndex colorPtr)
      else (kSuccess, [], mem))"
  by (subst decode_standard.simps) (simp add: readRow_Nil)

lemma decode_standard_Cons:
  "decode_standard s fillIndex colorPtr width dstWidth rb height y dstRow (r # rs) mem =
     (if y < unat height
      then (if length r = width
            then decode_standard s fillIndex colorPtr width dstWidth rb height (Suc y)
                   (dstRow + rb) rs (swizzle s dstRow r mem)
            else (kIncompleteInput, rs,
                  Fill mem dstRow dstWidth rb (height - word_of_nat y) fillIndex colorPtr))
      else (kSuccess, r # rs, mem))"
  by (subst decode_standard.simps) (simp add: readRow_Cons)

lemma decode_standard_status:
  assumes "\<forall>r\<in>set rows. length r = width"
  shows "fst (decode_standard s fillIndex colorPtr width dstWidth rb height y dstRow rows mem) =
    (if y + length rows < unat height then kIncompleteInput else kSuccess)"
  using assms
proof (induction rows arbitrary: y dstRow mem)
  case Nil
  show ?case by (simp add: decode_standard_Nil)
next
  case (Cons r rs)
  have r: "length r = width" and rs: "\<forall>r\<in>set rs. length r = width"
    using Cons.prems by simp_all
  show ?case
  proof (cases "y < unat height")
    case True
    then show ?thesis by (simp add: decode_standard_Cons r Cons.IH [OF rs])
  next
    case False
    then show ?thesis by (simp add: decode_standard_Cons)
  qed
qed

lemma Fill_below:
  "a < p \<Longrightarrow> Fill mem p w rb n fillIndex colorPtr a = mem a"
  by (simp add: Fill_def fill_rows_apply)

lemma decode_standard_below:
  assumes "a < dstRow"
  shows "snd (snd (decode_standard s fillIndex colorPtr width dstWidth rb height y dstRow rows mem)) a
    = mem a"
  using assms
proof (induction rows arbitrary: y dstRow mem)
  case Nil
  then show ?case by (simp add: decode_standard_Nil Fill_below)
next
  case (Cons r rs)
  have "snd (snd (decode_standard s fillIndex colorPtr width dstWidth rb height (Suc y)
      (dstRow + rb) rs (swizzle s dstRow r mem))) a = swizzle s dstRow r mem a"
    using Cons.prems by (intro Cons.IH) simp
  also have "\<dots> = mem a" using Cons.prems by (simp add: swizzle_apply)
  finally show ?case using Cons.prems by (simp add: decode_standard_Cons Fill_below)
qed

lemma decode_standard_decoded:
  assumes "\<forall>r\<in>set rows. length r = width" and "swz_dstWidth s = width" and "width \<le> rb"
    and "i < length rows" and "y + i < unat height" and "x < width"
  shows "snd (snd (decode_standard s fillIndex colorPtr width dstWidth rb height y dstRow rows mem))
      (dstRow + i * rb + x)
    = array_read (swz_colorTable s) (unat (rows ! i ! x))"
  using assms(1,4,5)
proof (induction rows arbitrary: y dstRow mem i)
  case Nil
  then show ?case by simp
next
  case (Cons r rs)
  have y: "y < unat height" and r: "length r = width" using Cons.prems by simp_all
  let ?rest = "decode_standard s fillIndex colorPtr width dstWidth rb height (Suc y)
      (dstRow + rb) rs (swizzle s dstRow r mem)"
  show ?case
  proof (cases i)
    case 0
    have "dstRow + x < dstRow + rb" using assms(3,6) by simp
    then have "snd (snd ?rest) (dstRow + x) = swizzle s dstRow r mem (dstRow + x)"
      by (rule decode_standard_below)
    also have "\<dots> = array_read (swz_colorTable s) (unat (r ! x))"
      using assms(2,6) r by (simp add: swizzle_apply)
    finally show ?thesis using 0 y r by (simp add: decode_standard_Cons)
  next
    case (Suc k)
    have "snd (snd ?rest) (dstRow + rb + k * rb + x)
        = array_read (swz_colorTable s) (unat (rs ! k ! x))"
      using Cons.prems Suc by (intro Cons.IH) simp_all
    then show ?thesis using Suc y r by (simp add: decode_standard_Cons add.assoc)
  qed
qed

lemma decode_standard_filled:
  assumes "\<forall>r\<in>set rows. length r = width"
    and "length rows \<le> i" and "y + i < unat height" and "x < dstWidth"
  shows "snd (snd (decode_standard s fillIndex colorPtr width dstWidth rb height y dstRow rows mem))
      (dstRow + i * rb + x)
    = array_read colorPtr (unat (ucast fillIndex :: uint8_t))"
  using assms(1,2,3)
proof (induction rows arbitrary: y dstRow mem i)
  case Nil
  have "i < unat height - y" using Nil.prems by simp
  moreover have "unat (height - word_of_nat y) = unat height - y"
    using Nil.prems by (intro unat_height_minus) simp
  ultimately have "\<exists>j<unat (height - word_of_nat y).
      dstRow + j * rb \<le> dstRow + i * rb + x \<and> dstRow + i * rb + x < dstRow + j * rb + dstWidth"
    using assms(4) by (intro exI [of _ i]) simp
  then show ?case
    using Nil.prems by (simp add: decode_standard_Nil Fill_def fill_rows_apply)
next
  case (Cons r rs)
  have y: "y < unat height" and r: "length r = width" using Cons.prems by simp_all
  from Cons.prems obtain k where k: "i = Suc k" by (cases i) simp_all
  let ?rest = "decode_standard s fillIndex colorPtr width dstWidth rb height (Suc y)
      (dstRow + rb) rs (swizzle s dstRow r mem)"
  have "snd (snd ?rest) (dstRow + rb + k * rb + x)
      = array_read colorPtr (unat (ucast fillIndex :: uint8_t))"
    using Cons.prems k by (intro Cons.IH) simp_all
  then show ?case using k y r by (simp add: decode_standard_Cons add.assoc)
qed

lemma Fill_preserves:
  assumes "P (mem a)" and "P (array_read colorPtr (unat (ucast fillIndex :: uint8_t)))"
  shows "P (Fill mem p w rb n fillIndex colorPtr a)"
  using assms by (simp add: Fill_def fill_rows_apply)

lemma swizzle_preserves:
  assumes "P (mem a)" and "\<And>b. P (array_read (swz_colorTable s) (unat (b :: uint8_t)))"
    and "swz_dstWidth s \<le> length src"
  shows "P (swizzle s p src mem a)"
  using assms by (auto simp: swizzle_apply)

lemma decode_standard_preserves:
  assumes "\<forall>r\<in>set rows. length r = width" and "swz_dstWidth s = width"
    and "P (mem a)" and "P (array_read colorPtr (unat (ucast fillIndex :: uint8_t)))"
    and "\<And>b. P (array_read (swz_colorTable s) (unat (b :: uint8_t)))"
  shows "P (snd (snd (decode_standard s fillIndex colorPtr width dstWidth rb height y dstRow
      rows mem)) a)"
  using assms(1,3)
proof (induction rows arbitrary: y dstRow mem)
  case Nil
  then show ?case by (simp add: decode_standard_Nil Fill_preserves assms(4))
next
  case (Cons r rs)
  have "P (swizzle s dstRow r mem a)" if "length r = width"
    using Cons.prems(2) assms(5) by (rule swizzle_preserves) (simp add: assms(2) that)
  then show ?case
    using Cons.prems by (simp add: decode_standard_Cons Fill_preserves assms(4) Cons.IH)
qed

subsection \<open>The interlaced loop\<close>

lemma rows_disjoint:
  fixes rb width o1 o2 x :: nat
  assumes "width \<le> rb" "o1 \<noteq> o2" "x < width"
  shows "\<not> (dst + rb * o1 \<le> dst + rb * o2 + x \<and> dst + rb * o2 + x < dst + rb * o1 + width)"
proof (cases "o1 < o2")
  case True
  then have "rb * (o1 + 1) \<le> rb * o2" by (intro mult_le_mono2) simp
  then have "rb * o1 + rb \<le> rb * o2" by (simp add: algebra_simps)
  with assms(1) show ?thesis by linarith
next
  case False
  with assms(2) have "o2 < o1" by simp
  then have "rb * (o2 + 1) \<le> rb * o1" by (intro mult_le_mono2) simp
  then have "rb * o2 + rb \<le> rb * o1" by (simp add: algebra_simps)
  with assms(1,3) show ?thesis by linarith
qed

lemma word_of_nat_row:
  fixes height :: uint32_t
  assumes "i < unat height"
  shows "unat (word_of_nat i :: uint32_t) = i" and "(word_of_nat i :: uint32_t) < height"
proof -
  have "unat height < 2 ^ 32" using unsigned_less [of height, where 'a = nat] by simp
  then have "i < 2 ^ 32" using assms by linarith
  then show u: "unat (word_of_nat i :: uint32_t) = i" by (rule unat_word_of_nat_small)
  show "(word_of_nat i :: uint32_t) < height"
    using assms by (simp only: word_less_nat_alt u)
qed

lemma output_row_inj:
  assumes "unat height \<le> 2 ^ 29" and "i < unat height" and "j < unat height"
    and "get_output_row_interlaced (word_of_nat i) height
       = get_output_row_interlaced (word_of_nat j) height"
  shows "i = j"
proof -
  have "(word_of_nat i :: uint32_t) = word_of_nat j"
    using assms(1) word_of_nat_row(2) [OF assms(2)] word_of_nat_row(2) [OF assms(3)] assms(4)
    by (rule get_output_row_interlaced_inj)
  then have "unat (word_of_nat i :: uint32_t) = unat (word_of_nat j :: uint32_t)" by simp
  then show ?thesis
    by (simp only: word_of_nat_row(1) [OF assms(2)] word_of_nat_row(1) [OF assms(3)])
qed

lemma output_row_less:
  assumes "unat height \<le> 2 ^ 29" and "i < unat height"
  shows "unat (get_output_row_interlaced (word_of_nat i) height) < unat height"
  using get_output_row_interlaced_less [OF assms(1) word_of_nat_row(2) [OF assms(2)]]
  by (simp add: word_less_nat_alt)

lemma fold_swizzle_const:
  assumes "swz_dstWidth s \<le> n"
  shows "fold (\<lambda>y mem. swizzle s (pos y) (replicate n b) mem) ys mem a =
    (if \<exists>j\<in>set ys. pos j \<le> a \<and> a < pos j + swz_dstWidth s
     then array_read (swz_colorTable s) (unat b) else mem a)"
proof (induction ys arbitrary: mem)
  case Nil
  show ?case by simp
next
  case (Cons y ys)
  have hit: "swizzle s (pos y) (replicate n b) mem a =
      (if pos y \<le> a \<and> a < pos y + swz_dstWidth s
       then array_read (swz_colorTable s) (unat b) else mem a)"
  proof (cases "pos y \<le> a \<and> a < pos y + swz_dstWidth s")
    case True
    then have "a - pos y < n" using assms by linarith
    with True show ?thesis by (simp add: swizzle_apply)
  next
    case False
    then show ?thesis by (auto simp: swizzle_apply)
  qed
  show ?case unfolding fold_simps Cons.IH hit by auto
qed

lemma fill_interlaced_apply:
  assumes "swz_dstWidth s = width"
  shows "fill_interlaced s fillIndex width dst rb height y mem a =
    (if \<exists>j. y \<le> j \<and> j < unat height
          \<and> dst + rb * unat (get_output_row_interlaced (word_of_nat j) height) \<le> a
          \<and> a < dst + rb * unat (get_output_row_interlaced (word_of_nat j) height) + width
     then array_read (swz_colorTable s) (unat (ucast fillIndex :: uint8_t))
     else mem a)"
proof -
  have w: "swz_dstWidth s \<le> width" using assms by simp
  show ?thesis
    unfolding fill_interlaced_def fold_swizzle_const [OF w] using assms by auto
qed

lemma decode_interlaced_Nil:
  "decode_interlaced s fillIndex width dst rb height y [] mem =
     (if y < unat height
      then (kIncompleteInput, [], fill_interlaced s fillIndex width dst rb height y mem)
      else (kSuccess, [], mem))"
  by (subst decode_interlaced.simps) (simp add: readRow_Nil)

lemma decode_interlaced_Cons:
  "decode_interlaced s fillIndex width dst rb height y (r # rs) mem =
     (if y < unat height
      then (if length r = width
            then decode_interlaced s fillIndex width dst rb height (Suc y) rs
                   (swizzle s
                      (dst + rb * unat (get_output_row_interlaced (word_of_nat y) height)) r mem)
            else (kIncompleteInput, rs, fill_interlaced s fillIndex width dst rb height y mem))
      else (kSuccess, r # rs, mem))"
  by (subst decode_interlaced.simps) (simp add: readRow_Cons)

lemma decode_interlaced_status:
  assumes "\<forall>r\<in>set rows. length r = width"
  shows "fst (decode_interlaced s fillIndex width dst rb height y rows mem) =
    (if y + length rows < unat height then kIncompleteInput else kSuccess)"
  using assms
proof (induction rows arbitrary: y mem)
  case Nil
  show ?case by (simp add: decode_interlaced_Nil)
next
  case (Cons r rs)
  have r: "length r = width" and rs: "\<forall>r\<in>set rs. length r = width"
    using Cons.prems by simp_all
  show ?case
  proof (cases "y < unat height")
    case True
    then show ?thesis by (simp add: decode_interlaced_Cons r Cons.IH [OF rs])
  next
    case False
    then show ?thesis by (simp add: decode_interlaced_Cons)
  qed
qed

text \<open>The loop writes into the output rows of the encoded rows from \<open>y\<close> on, and nowhere else.\<close>

lemma decode_interlaced_elsewhere:
  assumes "swz_dstWidth s = width"
    and "\<forall>j. y \<le> j \<and> j < unat height \<longrightarrow>
      \<not> (dst + rb * unat (get_output_row_interlaced (word_of_nat j) height) \<le> a
         \<and> a < dst + rb * unat (get_output_row_interlaced (word_of_nat j) height) + width)"
  shows "snd (snd (decode_interlaced s fillIndex width dst rb height y rows mem)) a = mem a"
  using assms(2)
proof (induction rows arbitrary: y mem)
  case Nil
  then have "fill_interlaced s fillIndex width dst rb height y mem a = mem a"
    unfolding fill_interlaced_apply [OF assms(1)] by meson
  then show ?case by (simp add: decode_interlaced_Nil)
next
  case (Cons r rs)
  let ?p = "dst + rb * unat (get_output_row_interlaced (word_of_nat y) height)"
  show ?case
  proof (cases "y < unat height")
    case False
    then show ?thesis by (simp add: decode_interlaced_Cons)
  next
    case True
    have here: "\<not> (?p \<le> a \<and> a < ?p + width)" using Cons.prems True by simp
    have rest: "\<forall>j. Suc y \<le> j \<and> j < unat height \<longrightarrow>
      \<not> (dst + rb * unat (get_output_row_interlaced (word_of_nat j) height) \<le> a
         \<and> a < dst + rb * unat (get_output_row_interlaced (word_of_nat j) height) + width)"
      using Cons.prems by simp
    have "snd (snd (decode_interlaced s fillIndex width dst rb height (Suc y) rs
        (swizzle s ?p r mem))) a = swizzle s ?p r mem a"
      using rest by (rule Cons.IH)
    also have "\<dots> = mem a" using here by (auto simp: swizzle_apply assms(1))
    finally have ok: "snd (snd (decode_interlaced s fillIndex width dst rb height (Suc y) rs
        (swizzle s ?p r mem))) a = mem a" .
    have "fill_interlaced s fillIndex width dst rb height y mem a = mem a"
      unfolding fill_interlaced_apply [OF assms(1)] using Cons.prems by meson
    with ok show ?thesis using True by (simp add: decode_interlaced_Cons)
  qed
qed

lemma decode_interlaced_decoded:
  assumes "\<forall>r\<in>set rows. length r = width" and "swz_dstWidth s = width" and "width \<le> rb"
    and "unat height \<le> 2 ^ 29"
    and "i < length rows" and "y + i < unat height" and "x < width"
  shows "snd (snd (decode_interlaced s fillIndex width dst rb height y rows mem))
      (dst + rb * unat (get_output_row_interlaced (word_of_nat (y + i)) height) + x)
    = array_read (swz_colorTable s) (unat (rows ! i ! x))"
  using assms(1,5,6)
proof (induction rows arbitrary: y mem i)
  case Nil
  then show ?case by simp
next
  case (Cons r rs)
  have y: "y < unat height" and r: "length r = width" using Cons.prems by simp_all
  let ?out = "\<lambda>j. unat (get_output_row_interlaced (word_of_nat j) height)"
  let ?rest = "decode_interlaced s fillIndex width dst rb height (Suc y) rs
      (swizzle s (dst + rb * ?out y) r mem)"
  show ?case
  proof (cases i)
    case 0
    have "\<forall>j. Suc y \<le> j \<and> j < unat height \<longrightarrow>
        \<not> (dst + rb * ?out j \<le> dst + rb * ?out y + x
           \<and> dst + rb * ?out y + x < dst + rb * ?out j + width)"
    proof (intro allI impI)
      fix j assume j: "Suc y \<le> j \<and> j < unat height"
      then have "?out j \<noteq> ?out y"
        using output_row_inj [OF assms(4) _ y, of j] by (auto simp: word_unat_eq_iff)
      then show "\<not> (dst + rb * ?out j \<le> dst + rb * ?out y + x
           \<and> dst + rb * ?out y + x < dst + rb * ?out j + width)"
        using assms(3,7) by (intro rows_disjoint)
    qed
    then have "snd (snd ?rest) (dst + rb * ?out y + x)
        = swizzle s (dst + rb * ?out y) r mem (dst + rb * ?out y + x)"
      by (rule decode_interlaced_elsewhere [OF assms(2)])
    also have "\<dots> = array_read (swz_colorTable s) (unat (r ! x))"
      using assms(2,7) r by (simp add: swizzle_apply)
    finally show ?thesis using 0 y r by (simp add: decode_interlaced_Cons)
  next
    case (Suc k)
    have "snd (snd ?rest) (dst + rb * ?out (Suc y + k) + x)
        = array_read (swz_colorTable s) (unat (rs ! k ! x))"
      using Cons.prems Suc by (intro Cons.IH) simp_all
    then show ?thesis using Suc y r by (simp add: decode_interlaced_Cons)
  qed
qed

lemma decode_interlaced_filled:
  assumes "\<forall>r\<in>set rows. length r = width" and "swz_dstWidth s = width"
    and "length rows \<le> i" and "y + i < unat height" and "x < width"
  shows "snd (snd (decode_interlaced s fillIndex width dst rb height y rows mem))
      (dst + rb * unat (get_output_row_interlaced (word_of_nat (y + i)) height) + x)
    = array_read (swz_colorTable s) (unat (ucast fillIndex :: uint8_t))"
  using assms(1,3,4)
proof (induction rows arbitrary: y mem i)
  case Nil
  let ?out = "\<lambda>j. unat (get_output_row_interlaced (word_of_nat j) height)"
  have "y \<le> y + i \<and> y + i < unat height
      \<and> dst + rb * ?out (y + i) \<le> dst + rb * ?out (y + i) + x
      \<and> dst + rb * ?out (y + i) + x < dst + rb * ?out (y + i) + width"
    using Nil.prems assms(5) by simp
  then have "\<exists>j. y \<le> j \<and> j < unat height
      \<and> dst + rb * ?out j \<le> dst + rb * ?out (y + i) + x
      \<and> dst + rb * ?out (y + i) + x < dst + rb * ?out j + width"
    by (rule exI)
  then show ?case
    using Nil.prems by (simp add: decode_interlaced_Nil fill_interlaced_apply [OF assms(2)])
next
  case (Cons r rs)
  have y: "y < unat height" and r: "length r = width" using Cons.prems by simp_all
  from Cons.prems obtain k where k: "i = Suc k" by (cases i) simp_all
  let ?out = "\<lambda>j. unat (get_output_row_interlaced (word_of_nat j) height)"
  let ?rest = "decode_interlaced s fillIndex width dst rb height (Suc y) rs
      (swizzle s (dst + rb * ?out y) r mem)"
  have "snd (snd ?rest) (dst + rb * ?out (Suc y + k) + x)
      = array_read (swz_colorTable s) (unat (ucast fillIndex :: uint8_t))"
    using Cons.prems k by (intro Cons.IH) simp_all
  then show ?case using k y r by (simp add: decode_interlaced_Cons)
qed

lemma fill_interlaced_preserves:
  assumes "swz_dstWidth s = width" and "P (mem a)"
    and "\<And>b. P (array_read (swz_colorTable s) (unat (b :: uint8_t)))"
  shows "P (fill_interlaced s fillIndex width dst rb height y mem a)"
  using assms(2,3) by (simp add: fill_interlaced_apply [OF assms(1)])

lemma decode_interlaced_preserves:
  assumes "\<forall>r\<in>set rows. length r = width" and "swz_dstWidth s = width"
    and "P (mem a)" and "\<And>b. P (array_read (swz_colorTable s) (unat (b :: uint8_t)))"
  shows "P (snd (snd (decode_interlaced s fillIndex width dst rb height y rows mem)) a)"
  using assms(1,3)
proof (induction rows arbitrary: y mem)
  case Nil
  then show ?case
    by (simp add: decode_interlaced_Nil fill_interlaced_preserves [OF assms(2)] assms(4))
next
  case (Cons r rs)
  have "P (swizzle s p r mem a)" if "length r = width" for p
    using Cons.prems(2) assms(4) by (rule swizzle_preserves) (simp add: assms(2) that)
  then show ?case
    using Cons.prems
    by (simp add: decode_interlaced_Cons fill_interlaced_preserves [OF assms(2)] assms(4)
        Cons.IH)
qed

lemma get_output_row_interlaced_surj:
  assumes "unat h \<le> 2 ^ 29" and "out < h"
  shows "\<exists>r. r < h \<and> get_output_row_interlaced r h = out"
proof -
  let ?f = "\<lambda>r. get_output_row_interlaced r h"
  have inj: "inj_on ?f {r. r < h}"
    by (rule inj_onI) (simp, rule get_output_row_interlaced_inj [OF assms(1)])
  have "?f ` {r. r < h} \<subseteq> {r. r < h}"
    using get_output_row_interlaced_less [OF assms(1)] by auto
  then have "?f ` {r. r < h} = {r. r < h}"
    using inj by (intro endo_inj_surj) simp_all
  then have "out \<in> ?f ` {r. r < h}" using assms(2) by simp
  then show ?thesis by auto
qed

lemma output_row_surj:
  assumes "unat height \<le> 2 ^ 29" and "r < unat height"
  shows "\<exists>j < unat height. unat (get_output_row_interlaced (word_of_nat j) height) = r"
proof -
  have r: "unat (word_of_nat r :: uint32_t) = r" "(word_of_nat r :: uint32_t) < height"
    using word_of_nat_row [OF assms(2)] by simp_all
  from get_output_row_interlaced_surj [OF assms(1) r(2)]
  obtain e where e: "e < height" "get_output_row_interlaced e height = word_of_nat r" by blast
  have "unat e < unat height" using e(1) by (simp add: word_less_nat_alt)
  moreover have "unat (get_output_row_interlaced (word_of_nat (unat e)) height) = r"
    using e(2) r(1) by simp
  ultimately show ?thesis by blast
qed

subsection \<open>The state after \<^verbatim>\<open>prepareToDecode\<close>\<close>

lemma resolve_axis_whole:
  assumes "snd (resolve_axis pos extent canvas) = canvas"
  shows "fst (resolve_axis pos extent canvas) = 0"
  using assms by (auto simp: resolve_axis_def split: if_splits)

lemma setFrameDimensions_fields:
  "getInfo (snd (setFrameDimensions c desc)) = getInfo c"
  "fGif (snd (setFrameDimensions c desc)) = fGif c"
  "fTransIndex (snd (setFrameDimensions c desc)) = fTransIndex c"
  "fFillIndex (snd (setFrameDimensions c desc)) = fFillIndex c"
  by (simp_all add: setFrameDimensions_def Let_def split_def)

lemma initializeColorTable_fields:
  "getInfo (fst (initializeColorTable c x)) = getInfo c"
  "fGif (fst (initializeColorTable c x)) = fGif c"
  "fFrameDims (fst (initializeColorTable c x)) = fFrameDims c"
  "fFrameIsSubset (fst (initializeColorTable c x)) = fFrameIsSubset c"
  by (simp_all add: initializeColorTable_def Let_def)

lemma initializeColorTable_table:
  "\<exists>t. fColorTable (fst (initializeColorTable c x)) = Some t \<and> length t = 256"
  by (simp add: initializeColorTable_def Let_def split: option.splits)

lemma prepareToDecode_success:
  assumes "rewound env" "\<not> opts_fSubset env" "conversion_possible env"
    and "0 < Width (Image (fGif c))" "0 < Height (Image (fGif c))"
  shows "prepareToDecode c env x =
    (kSuccess, fst (initializeColorTable (snd (setFrameDimensions c (Image (fGif c)))) x),
     snd (initializeColorTable (snd (setFrameDimensions c (Image (fGif c)))) x))"
proof -
  have "fst (setFrameDimensions c (Image (fGif c)))"
    using assms(4,5) by (simp add: setFrameDimensions_fails)
  then show ?thesis
    using assms(1-3) by (simp add: prepareToDecode_def Let_def split_def)
qed

text \<open>The resolved frame, as natural numbers.\<close>

lemma prepared_frame:
  fixes c :: SkGifCodec
  defines "c1 \<equiv> snd (setFrameDimensions c (Image (fGif c)))"
  assumes "0 < fWidth (getInfo c)" "0 < fHeight (getInfo c)"
    and "0 < Width (Image (fGif c))" "0 < Height (Image (fGif c))"
    and "no_overflow c (Image (fGif c))"
  shows "0 \<le> fLeft (fFrameDims c1)" "0 \<le> fTop (fFrameDims c1)"
    and "0 < rect_width (fFrameDims c1)" "0 < rect_height (fFrameDims c1)"
    and "fLeft (fFrameDims c1) + rect_width (fFrameDims c1) \<le> fWidth (getInfo c)"
    and "fTop (fFrameDims c1) + rect_height (fFrameDims c1) \<le> fHeight (getInfo c)"
    and "\<not> fFrameIsSubset c1 \<Longrightarrow>
      fLeft (fFrameDims c1) = 0 \<and> fTop (fFrameDims c1) = 0
      \<and> rect_width (fFrameDims c1) = fWidth (getInfo c)
      \<and> rect_height (fFrameDims c1) = fHeight (getInfo c)"
proof -
  let ?desc = "Image (fGif c)"
  have ok: "fst (setFrameDimensions c ?desc)"
    using assms(4,5) by (simp add: setFrameDimensions_fails)
  note d = setFrameDimensions_axes [OF ok assms(2,3,6), folded c1_def]
  note z = setFrameDimensions_size [OF ok assms(2,3,6), folded c1_def]
  note x = resolve_axis_inside [OF assms(2,4), of "Left ?desc"]
  note y = resolve_axis_inside [OF assms(3,5), of "Top ?desc"]
  have l: "fLeft (fFrameDims c1) = fst (resolve_axis (Left ?desc) (Width ?desc) (fWidth (getInfo c)))"
    and t: "fTop (fFrameDims c1) = fst (resolve_axis (Top ?desc) (Height ?desc) (fHeight (getInfo c)))"
    by (simp_all add: d)
  have w: "rect_width (fFrameDims c1)
        = snd (resolve_axis (Left ?desc) (Width ?desc) (fWidth (getInfo c)))"
    and h: "rect_height (fFrameDims c1)
        = snd (resolve_axis (Top ?desc) (Height ?desc) (fHeight (getInfo c)))"
    by (rule z)+
  show "0 \<le> fLeft (fFrameDims c1)" "0 \<le> fTop (fFrameDims c1)"
    and "0 < rect_width (fFrameDims c1)" "0 < rect_height (fFrameDims c1)"
    and "fLeft (fFrameDims c1) + rect_width (fFrameDims c1) \<le> fWidth (getInfo c)"
    and "fTop (fFrameDims c1) + rect_height (fFrameDims c1) \<le> fHeight (getInfo c)"
    using x y by (simp_all only: l t w h)
  show "fLeft (fFrameDims c1) = 0 \<and> fTop (fFrameDims c1) = 0
      \<and> rect_width (fFrameDims c1) = fWidth (getInfo c)
      \<and> rect_height (fFrameDims c1) = fHeight (getInfo c)" if "\<not> fFrameIsSubset c1"
  proof -
    have eq: "rect_width (fFrameDims c1) = fWidth (getInfo c)"
      "rect_height (fFrameDims c1) = fHeight (getInfo c)"
      using setFrameDimensions_subset [OF ok, folded c1_def] that by auto
    have "fLeft (fFrameDims c1) = 0" unfolding l using eq(1) [unfolded w] by (rule resolve_axis_whole)
    moreover have "fTop (fFrameDims c1) = 0"
      unfolding t using eq(2) [unfolded h] by (rule resolve_axis_whole)
    ultimately show ?thesis using eq by simp
  qed
qed

subsection \<open>The rows of the frame after a bulk decode\<close>

lemma decode_standard_frame:
  assumes "\<forall>r\<in>set rows. length r = width" and "swz_dstWidth s = width" and "width \<le> rb"
    and "width \<le> dstWidth" and "j < unat height" and "x < width"
  shows "snd (snd (decode_standard s fillIndex colorPtr width dstWidth rb height 0 dst rows mem))
      (dst + rb * j + x)
    = (if j < length rows then array_read (swz_colorTable s) (unat (rows ! j ! x))
       else array_read colorPtr (unat (ucast fillIndex :: uint8_t)))"
proof (cases "j < length rows")
  case True
  then show ?thesis
    using decode_standard_decoded [OF assms(1,2,3), of j 0 height x fillIndex colorPtr dstWidth
        dst mem] assms(5,6)
    by (simp add: mult.commute)
next
  case False
  then show ?thesis
    using decode_standard_filled [OF assms(1), of j 0 height x dstWidth s fillIndex colorPtr rb
        dst mem] assms(4,5,6)
    by (simp add: mult.commute)
qed

lemma decode_interlaced_frame:
  assumes "\<forall>r\<in>set rows. length r = width" and "swz_dstWidth s = width" and "width \<le> rb"
    and "unat height \<le> 2 ^ 29" and "j < unat height" and "x < width"
  shows "snd (snd (decode_interlaced s fillIndex width dst rb height 0 rows mem))
      (dst + rb * unat (get_output_row_interlaced (word_of_nat j) height) + x)
    = (if j < length rows then array_read (swz_colorTable s) (unat (rows ! j ! x))
       else array_read (swz_colorTable s) (unat (ucast fillIndex :: uint8_t)))"
proof (cases "j < length rows")
  case True
  then show ?thesis
    using decode_interlaced_decoded [OF assms(1,2,3,4), of j 0 x fillIndex dst mem] assms(5,6)
    by simp
next
  case False
  then show ?thesis
    using decode_interlaced_filled [OF assms(1,2), of j 0 height x fillIndex dst rb mem]
      assms(5,6)
    by simp
qed

lemma unat_byte_less: "unat (b :: uint8_t) < 256"
  using unsigned_less [of b, where 'a = nat] by simp

lemma unat_word_of_int_nat:
  assumes "0 \<le> k" "k < 2 ^ 31"
  shows "unat (word_of_int k :: uint32_t) = nat k"
  using assms by (intro unat_word_of_int_small) simp_all

lemma onGetPixels_unfold:
  fixes c :: SkGifCodec and cnt :: "int option"
  defines "c1 \<equiv> fst (initializeColorTable (snd (setFrameDimensions c (Image (fGif c)))) cnt)"
  assumes "rewound env" "\<not> opts_fSubset env" "conversion_possible env" "swizzler_created env"
    and "(fWidth dstInfo, fHeight dstInfo) = (fWidth (getInfo c), fHeight (getInfo c))"
    and "0 < Width (Image (fGif c))" "0 < Height (Image (fGif c))"
  shows "onGetPixels c env dstInfo rb cnt rows mem =
    (let T = get_color_ptr (fColorTable c1);
         s = \<lparr>swz_colorTable = T,
              swz_dstWidth = nat (if fFrameIsSubset c1 then rect_width (fFrameDims c1)
                                  else fWidth dstInfo)\<rparr>;
         mem1 = (if fFrameIsSubset c1
                 then Fill mem 0 (nat (fWidth dstInfo)) rb (word_of_int (fHeight (getInfo c1)))
                        (fFillIndex c1) T
                 else mem);
         dst = (if fFrameIsSubset c1
                then rb * nat (fTop (fFrameDims c1)) + nat (fLeft (fFrameDims c1)) else 0);
         width = (word_of_int (rect_width (fFrameDims c1)) :: uint32_t);
         height = (word_of_int (rect_height (fFrameDims c1)) :: uint32_t);
         res = (if Interlace (Image (fGif c1))
                then decode_interlaced s (fFillIndex c1) (unat width) dst rb height 0 rows mem1
                else decode_standard s (fFillIndex c1) T (unat width) (nat (fWidth dstInfo)) rb
                       height 0 dst rows mem1)
     in (fst res, c1, fst (snd res), snd (snd res)))"
proof -
  have prep: "prepareToDecode c env cnt =
      (kSuccess, c1, snd (initializeColorTable (snd (setFrameDimensions c (Image (fGif c)))) cnt))"
    unfolding c1_def using assms(2-4,7,8) by (rule prepareToDecode_success)
  have info: "getInfo c1 = getInfo c"
    by (simp add: c1_def initializeColorTable_fields setFrameDimensions_fields)
  show ?thesis
    using assms(5,6)
    by (simp add: onGetPixels_def prep info initializeSwizzler_def Let_def split_def)
qed

lemma onGetPixels_frame:
  fixes c :: SkGifCodec and env :: DecodeEnv and dstInfo :: SkImageInfo and rb :: nat
    and cnt :: "int option" and rows :: "uint8_t list list" and mem :: pixels
  defines "frame \<equiv> fFrameDims (snd (setFrameDimensions c (Image (fGif c))))"
  defines "res \<equiv> onGetPixels c env dstInfo rb cnt rows mem"
  defines "c' \<equiv> fst (snd res)" and "M \<equiv> snd (snd (snd res))"
  defines "out \<equiv> (\<lambda>j. if Interlace (Image (fGif c))
      then unat (get_output_row_interlaced (word_of_nat j)
                   (word_of_int (rect_height frame) :: uint32_t))
      else j)"
  assumes env: "rewound env" "\<not> opts_fSubset env" "conversion_possible env"
      "swizzler_created env"
    and dims: "(fWidth dstInfo, fHeight dstInfo) = (fWidth (getInfo c), fHeight (getInfo c))"
    and canvas: "0 < fWidth (getInfo c)" "fWidth (getInfo c) < 2 ^ 31"
      "0 < fHeight (getInfo c)" "fHeight (getInfo c) < 2 ^ 31"
    and desc: "0 < Width (Image (fGif c))" "0 < Height (Image (fGif c))"
    and range: "no_overflow c (Image (fGif c))"
    and rb: "fWidth (getInfo c) \<le> int rb"
    and rows: "\<forall>r\<in>set rows. length r = nat (rect_width frame)"
    and il: "Interlace (Image (fGif c)) \<Longrightarrow> rect_height frame \<le> 2 ^ 29"
  shows "fst res = (if length rows < nat (rect_height frame) then kIncompleteInput else kSuccess)"
    and "fFrameDims c' = frame"
    and "\<And>j x. j < nat (rect_height frame) \<Longrightarrow> x < nat (rect_width frame) \<Longrightarrow>
      M (rb * (nat (fTop frame) + out j) + nat (fLeft frame) + x)
      = (if j < length rows then table_entry c' (unat (rows ! j ! x))
         else table_entry c' (unat (ucast (fFillIndex c') :: uint8_t)))"
    and "\<And>row col. row < nat (fHeight (getInfo c)) \<Longrightarrow> col < nat (fWidth (getInfo c)) \<Longrightarrow>
      \<exists>i<256. M (rb * row + col) = table_entry c' i"
proof -
  let ?c0 = "snd (setFrameDimensions c (Image (fGif c)))"
  define c1 where "c1 = fst (initializeColorTable ?c0 cnt)"
  define T where "T = get_color_ptr (fColorTable c1)"
  define fw where "fw = nat (rect_width frame)"
  define fh where "fh = nat (rect_height frame)"
  define left where "left = nat (fLeft frame)"
  define top where "top = nat (fTop frame)"
  define Wn where "Wn = nat (fWidth (getInfo c))"
  define Hn where "Hn = nat (fHeight (getInfo c))"
  define height where "height = (word_of_int (rect_height frame) :: uint32_t)"
  define sub where "sub = fFrameIsSubset c1"
  define s where "s = \<lparr>swz_colorTable = T, swz_dstWidth = (if sub then fw else Wn)\<rparr>"
  define mem1 where "mem1 = (if sub then Fill mem 0 Wn rb (word_of_int (fHeight (getInfo c)))
      (fFillIndex c1) T else mem)"
  define dst where "dst = (if sub then rb * top + left else 0)"
  define loop where "loop = (if Interlace (Image (fGif c))
      then decode_interlaced s (fFillIndex c1) fw dst rb height 0 rows mem1
      else decode_standard s (fFillIndex c1) T fw Wn rb height 0 dst rows mem1)"
  define fillc where "fillc = array_read T (unat (ucast (fFillIndex c1) :: uint8_t))"
  \<comment> \<open>the fields of the prepared codec\<close>
  have f1: "getInfo c1 = getInfo c" "fGif c1 = fGif c" "fFrameDims c1 = frame"
    "fFrameIsSubset c1 = fFrameIsSubset ?c0"
    by (simp_all add: c1_def frame_def initializeColorTable_fields setFrameDimensions_fields)
  obtain t where t: "fColorTable c1 = Some t" "length t = 256"
    using initializeColorTable_table [of ?c0 cnt] unfolding c1_def by blast
  have T: "T = t" by (simp add: T_def t get_color_ptr_def)
  have entry: "table_entry c1 i = array_read T i" for i
    by (simp add: table_entry_def t T)
  \<comment> \<open>the frame\<close>
  note G = prepared_frame [OF canvas(1,3) desc range, folded frame_def]
  have fw_pos: "0 < fw" and fh_pos: "0 < fh" using G(3,4) by (simp_all add: fw_def fh_def)
  have fw_W: "left + fw \<le> Wn" using G(1,3,5) by (simp add: left_def fw_def Wn_def)
  have fh_H: "top + fh \<le> Hn" using G(2,4,6) by (simp add: top_def fh_def Hn_def)
  have W_rb: "Wn \<le> rb" using rb canvas(1) by (simp add: Wn_def)
  have whole: "left = 0 \<and> top = 0 \<and> fw = Wn \<and> fh = Hn" if "\<not> sub"
    using G(7) that by (simp add: sub_def f1 left_def top_def fw_def fh_def Wn_def Hn_def)
  have uw: "unat (word_of_int (rect_width frame) :: uint32_t) = fw"
    unfolding fw_def using G(1,3,5) canvas(2) by (intro unat_word_of_int_nat) simp_all
  have uh: "unat height = fh"
    unfolding fh_def height_def using G(2,4,6) canvas(4) by (intro unat_word_of_int_nat) simp_all
  have uH: "unat (word_of_int (fHeight (getInfo c)) :: uint32_t) = Hn"
    unfolding Hn_def using canvas(3,4) by (intro unat_word_of_int_nat) simp_all
  have h29: "unat height \<le> 2 ^ 29" if "Interlace (Image (fGif c))"
    using il [OF that] G(4) by (simp add: uh fh_def)
  \<comment> \<open>the call\<close>
  note U = onGetPixels_unfold [OF env dims desc, of rb cnt rows mem, folded c1_def]
  have dW: "fWidth dstInfo = fWidth (getInfo c)" using dims by simp
  have "res = (fst loop, c1, fst (snd loop), snd (snd loop))"
  proof (cases sub)
    case True
    then have "fFrameIsSubset c1" by (simp add: sub_def)
    then show ?thesis
      unfolding res_def U
      by (simp add: Let_def loop_def s_def mem1_def dst_def T_def True f1 dW
          uw [unfolded fw_def] fw_def Wn_def height_def top_def left_def)
  next
    case False
    then have "\<not> fFrameIsSubset c1" by (simp add: sub_def)
    then show ?thesis
      unfolding res_def U
      by (simp add: Let_def loop_def s_def mem1_def dst_def T_def False f1 dW
          uw [unfolded fw_def] fw_def Wn_def height_def top_def left_def)
  qed
  then have r: "fst res = fst loop" "c' = c1" "M = snd (snd loop)"
    by (simp_all add: c'_def M_def)
  have good: "\<forall>r\<in>set rows. length r = fw" using rows by (simp add: fw_def)
  have sw: "swz_dstWidth s = fw" "swz_colorTable s = T"
    using whole by (auto simp: s_def)
  show "fst res = (if length rows < nat (rect_height frame) then kIncompleteInput else kSuccess)"
    unfolding r(1) loop_def
    by (simp add: decode_interlaced_status [OF good] decode_standard_status [OF good] uh
        fh_def)
  show "fFrameDims c' = frame" by (simp add: r f1)
  have pixel: "M (rb * (top + out j) + left + x)
      = (if j < length rows then array_read T (unat (rows ! j ! x)) else fillc)"
    if j: "j < fh" and x: "x < fw" for j x
  proof -
    have a: "rb * (top + out j) + left + x = dst + rb * out j + x"
      using whole by (cases sub) (simp_all add: dst_def algebra_simps)
    show ?thesis
    proof (cases "Interlace (Image (fGif c))")
      case True
      have "snd (snd (decode_interlaced s (fFillIndex c1) fw dst rb height 0 rows mem1))
          (dst + rb * unat (get_output_row_interlaced (word_of_nat j) height) + x)
        = (if j < length rows then array_read (swz_colorTable s) (unat (rows ! j ! x))
           else array_read (swz_colorTable s) (unat (ucast (fFillIndex c1) :: uint8_t)))"
        using good sw(1) _ h29 [OF True]
        by (rule decode_interlaced_frame) (use fw_W W_rb j x in \<open>simp_all add: uh\<close>)
      then have "M (dst + rb * out j + x)
          = (if j < length rows then array_read T (unat (rows ! j ! x)) else fillc)"
        using True by (simp add: r loop_def out_def height_def sw fillc_def)
      then show ?thesis by (simp only: a)
    next
      case False
      have "snd (snd (decode_standard s (fFillIndex c1) T fw Wn rb height 0 dst rows mem1))
          (dst + rb * j + x)
        = (if j < length rows then array_read (swz_colorTable s) (unat (rows ! j ! x))
           else array_read T (unat (ucast (fFillIndex c1) :: uint8_t)))"
        using good sw(1)
        by (rule decode_standard_frame) (use fw_W W_rb j x in \<open>simp_all add: uh\<close>)
      then have "M (dst + rb * out j + x)
          = (if j < length rows then array_read T (unat (rows ! j ! x)) else fillc)"
        using False by (simp add: r loop_def out_def sw fillc_def)
      then show ?thesis by (simp only: a)
    qed
  qed
  show "M (rb * (nat (fTop frame) + out j) + nat (fLeft frame) + x)
      = (if j < length rows then table_entry c' (unat (rows ! j ! x))
         else table_entry c' (unat (ucast (fFillIndex c') :: uint8_t)))"
    if "j < nat (rect_height frame)" and "x < nat (rect_width frame)" for j x
    using pixel [of j x] that
    by (simp add: fh_def fw_def top_def left_def r(2) entry fillc_def)
  show "\<exists>i<256. M (rb * row + col) = table_entry c' i"
    if row: "row < nat (fHeight (getInfo c))" and col: "col < nat (fWidth (getInfo c))"
    for row col
  proof -
    let ?P = "\<lambda>cell. \<exists>i<256. cell = array_read T i"
    have Pb: "?P (array_read T (unat b))" for b :: uint8_t
      using unat_byte_less [of b] by blast
    have "?P (M (rb * row + col))"
    proof (cases sub)
      case True
      have "\<exists>j<Hn. 0 + j * rb \<le> rb * row + col \<and> rb * row + col < 0 + j * rb + Wn"
        using row col by (intro exI [of _ row]) (simp add: Hn_def Wn_def mult.commute)
      then have "mem1 (rb * row + col) = fillc"
        using True by (simp add: mem1_def Fill_def fill_rows_apply uH fillc_def)
      then have P1: "?P (mem1 (rb * row + col))" using Pb by (simp add: fillc_def)
      show ?thesis
      proof (cases "Interlace (Image (fGif c))")
        case True
        have "?P (snd (snd (decode_interlaced s (fFillIndex c1) fw dst rb height 0 rows mem1))
            (rb * row + col))"
          using good sw(1) P1 by (rule decode_interlaced_preserves) (simp add: sw Pb)
        then show ?thesis using True by (simp add: r loop_def)
      next
        case False
        have "?P (snd (snd (decode_standard s (fFillIndex c1) T fw Wn rb height 0 dst rows mem1))
            (rb * row + col))"
          using good sw(1) P1 Pb by (rule decode_standard_preserves) (simp add: sw Pb)
        then show ?thesis using False by (simp add: r loop_def)
      qed
    next
      case False
      note w = whole [OF False]
      have row': "row < fh" and col': "col < fw" using row col w by (simp_all add: Hn_def Wn_def)
      have "\<exists>j<fh. out j = row"
      proof (cases "Interlace (Image (fGif c))")
        case True
        have "row < unat height" using row' by (simp add: uh)
        from output_row_surj [OF h29 [OF True] this]
        show ?thesis by (simp add: out_def True uh height_def [symmetric])
      next
        case False
        then show ?thesis using row' by (simp add: out_def)
      qed
      then obtain j where j: "j < fh" "out j = row" by blast
      have "M (rb * row + col)
          = (if j < length rows then array_read T (unat (rows ! j ! col)) else fillc)"
        using pixel [OF j(1) col'] w by (simp add: j(2))
      then show ?thesis using Pb by (auto simp: fillc_def)
    qed
    then show ?thesis by (simp add: r(2) entry)
  qed
qed

subsection \<open>Rows delivered before a failure\<close>

lemma decode_interlaced_good_rows:
  assumes "\<forall>r\<in>set rows. length r = width" and "y + length rows < unat height"
  shows "\<exists>mem'. decode_interlaced s fillIndex width dst rb height y rows mem =
    (kIncompleteInput, [], fill_interlaced s fillIndex width dst rb height (y + length rows) mem')"
  using assms
proof (induction rows arbitrary: y mem)
  case Nil
  then show ?case by (auto simp: decode_interlaced_Nil)
next
  case (Cons r rs)
  have y: "y < unat height" using Cons.prems(2) by simp
  have r: "length r = width" using Cons.prems(1) by simp
  have "\<forall>r\<in>set rs. length r = width" using Cons.prems(1) by simp
  moreover have "Suc y + length rs < unat height" using Cons.prems(2) by simp
  ultimately obtain mem' where
    "decode_interlaced s fillIndex width dst rb height (Suc y) rs
       (swizzle s (dst + rb * unat (get_output_row_interlaced (word_of_nat y) height)) r mem) =
     (kIncompleteInput, [], fill_interlaced s fillIndex width dst rb height (Suc y + length rs) mem')"
    using Cons.IH by blast
  then show ?case by (auto simp: decode_interlaced_Cons y r)
qed





lemma onGetPixels_codec:
  assumes "rewound env" "\<not> opts_fSubset env" "conversion_possible env" "swizzler_created env"
    and "(fWidth dstInfo, fHeight dstInfo) = (fWidth (getInfo c), fHeight (getInfo c))"
    and "0 < Width (Image (fGif c))" "0 < Height (Image (fGif c))"
  shows "fst (snd (onGetPixels c env dstInfo rb cnt rows mem))
    = fst (initializeColorTable (snd (setFrameDimensions c (Image (fGif c)))) cnt)"
  unfolding onGetPixels_unfold [OF assms] by (simp add: Let_def)

subsection \<open>The example frame\<close>

lemma prepared_table:
  fixes c :: SkGifCodec and m :: ColorMapObject and desc :: GifImageDesc and x :: "int option"
  defines "c1 \<equiv> fst (initializeColorTable (snd (setFrameDimensions c desc)) x)"
    and "cc \<equiv> (word_of_int (ColorCount m) :: uint32_t)"
    and "bg \<equiv> (word_of_int (SBackGroundColor (fGif c)) :: uint32_t)"
  assumes am: "active_color_map (fGif c) = Some m" and g: "giflib_guarantees m"
    and f0: "fFillIndex c < cc"
  shows "fFillIndex c1 = (if fTransIndex c < cc then fTransIndex c
                          else if bg < cc then bg else fFillIndex c)"
    and "i < 256 \<Longrightarrow> table_entry c1 i =
      (if fTransIndex c < cc \<and> (i = unat (fTransIndex c) \<or> nat (ColorCount m) \<le> i)
       then Some SK_ColorTRANSPARENT
       else if i < nat (ColorCount m) then Some (palette_color m i)
       else Some (palette_color m (unat (fFillIndex c1))))"
proof -
  let ?c0 = "snd (setFrameDimensions c desc)"
  have am': "active_color_map (fGif ?c0) = Some m"
    using am by (simp only: setFrameDimensions_fields)
  have f0': "fFillIndex ?c0 < word_of_int (ColorCount m)"
    using f0 by (simp only: setFrameDimensions_fields cc_def)
  note P1 = initializeColorTable_palette(1) [OF am' g f0', where x = x,
      unfolded setFrameDimensions_fields, folded c1_def cc_def bg_def]
  note P3 = initializeColorTable_palette(3) [OF am' g f0', where x = x,
      unfolded setFrameDimensions_fields, folded c1_def cc_def bg_def]
  show "fFillIndex c1 = (if fTransIndex c < cc then fTransIndex c
                          else if bg < cc then bg else fFillIndex c)"
    by (rule P1)
  show "table_entry c1 i =
      (if fTransIndex c < cc \<and> (i = unat (fTransIndex c) \<or> nat (ColorCount m) \<le> i)
       then Some SK_ColorTRANSPARENT
       else if i < nat (ColorCount m) then Some (palette_color m i)
       else Some (palette_color m (unat (fFillIndex c1))))" if "i < 256"
    by (rule P3 [OF that])
qed

lemma subset_codec_fields:
  "getInfo (subset_codec il) = canvas_10x10"
  "fGif (subset_codec il) = gif_10x10 (subset_frame il)"
  "fTransIndex (subset_codec il) = SK_MaxU32"
  "fFillIndex (subset_codec il) = 0"
  by (simp_all add: subset_codec_def new_SkGifCodec_def)

lemma subset_frame_fields:
  "Image (gif_10x10 d) = d" "SBackGroundColor (gif_10x10 d) = 0"
  "active_color_map (gif_10x10 (subset_frame il)) = Some black_white"
  "Left (subset_frame il) = 2" "Top (subset_frame il) = 3"
  "Width (subset_frame il) = 4" "Height (subset_frame il) = 4"
  "Interlace (subset_frame il) = il"
  "fWidth canvas_10x10 = 10" "fHeight canvas_10x10 = 10"
  by (simp_all add: gif_10x10_def subset_frame_def active_color_map_def canvas_10x10_def)

lemma subset_codec_frame:
  "setFrameDimensions (subset_codec il) (subset_frame il)
   = (True, (subset_codec il)\<lparr>fFrameDims := \<lparr>fLeft = 2, fTop = 3, fRight = 6, fBottom = 7\<rparr>,
                                fFrameIsSubset := True\<rparr>)"
  by (simp add: setFrameDimensions_def subset_codec_fields subset_frame_fields Let_def
      setXYWH_def rect_width_def rect_height_def int32_def)

lemma subset_rect [simp]:
  "rect_width \<lparr>fLeft = 2, fTop = 3, fRight = 6, fBottom = 7\<rparr> = 4"
  "rect_height \<lparr>fLeft = 2, fTop = 3, fRight = 6, fBottom = 7\<rparr> = 4"
  by (simp_all add: rect_width_def rect_height_def int32_def)

lemma subset_codec_no_overflow: "no_overflow (subset_codec il) (subset_frame il)"
  by (simp add: no_overflow_def subset_codec_fields subset_frame_fields)

lemma decode_env_ok_fields:
  "rewound decode_env_ok" "\<not> opts_fSubset decode_env_ok" "conversion_possible decode_env_ok"
  "swizzler_created decode_env_ok" "sampling_supported decode_env_ok"
  "scaled_dimension decode_env_ok w = w"
  by (simp_all add: decode_env_ok_def)

lemma subset_codec_table:
  fixes il :: bool and x :: "int option"
  defines "c1 \<equiv> fst (initializeColorTable (snd (setFrameDimensions (subset_codec il)
      (subset_frame il))) x)"
  shows "fFillIndex c1 = 0"
    and "table_entry c1 0 = Some (SkPackARGB32 0xFF 0 0 0)"
    and "table_entry c1 1 = Some (SkPackARGB32 0xFF 0xFF 0xFF 0xFF)"
proof -
  have am: "active_color_map (fGif (subset_codec il)) = Some black_white"
    by (simp add: subset_codec_fields subset_frame_fields)
  have f0: "fFillIndex (subset_codec il) < word_of_int (ColorCount black_white)"
    by (simp add: subset_codec_fields)
  note P = prepared_table [OF am black_white_ok f0, where desc = "subset_frame il" and x = x,
      folded c1_def]
  show f: "fFillIndex c1 = 0"
    unfolding P(1) by (simp add: subset_codec_fields subset_frame_fields SK_MaxU32_def)
  show "table_entry c1 0 = Some (SkPackARGB32 0xFF 0 0 0)"
    using P(2) [of 0]
    by (simp add: subset_codec_fields SK_MaxU32_def palette_color_def black_white_def)
  show "table_entry c1 1 = Some (SkPackARGB32 0xFF 0xFF 0xFF 0xFF)"
    using P(2) [of 1]
    by (simp add: subset_codec_fields SK_MaxU32_def palette_color_def black_white_def)
qed

lemma subset_codec_prepared:
  "fFrameDims (snd (setFrameDimensions (subset_codec il) (subset_frame il)))
   = \<lparr>fLeft = 2, fTop = 3, fRight = 6, fBottom = 7\<rparr>"
  "fFrameIsSubset (snd (setFrameDimensions (subset_codec il) (subset_frame il)))"
  by (simp_all add: subset_codec_frame)

lemma white_rows_good:
  "takeWhile (\<lambda>r. length r = 4) (white_rows k 4) = white_rows k 4"
  "length (white_rows k 4) = k"
  "j < k \<Longrightarrow> x < 4 \<Longrightarrow> white_rows k 4 ! j ! x = 1"
  by (simp_all add: white_rows_def)

lemma subset_decode_codec:
  "fst (snd (subset_decode il k))
   = fst (initializeColorTable (snd (setFrameDimensions (subset_codec il) (subset_frame il))) None)"
  unfolding subset_decode_def
  using onGetPixels_codec [of decode_env_ok canvas_10x10 "subset_codec il" 10 None
      "white_rows k 4" unwritten]
  by (simp add: decode_env_ok_fields subset_codec_fields subset_frame_fields)


section \<open>The bulk decode after a failure of the decompressor\<close>



section \<open>Properties of the scanline decoder\<close>

lemma array_read_color_ptr:
  "array_read (get_color_ptr (fColorTable c)) i = table_entry c i"
  by (simp add: get_color_ptr_def table_entry_def array_read_def split: option.splits)

lemma subset_session_eq:
  fixes c1 :: SkGifCodec
  defines "c1 \<equiv> fst (initializeColorTable
      (snd (setFrameDimensions (subset_codec False) (subset_frame False))) None)"
  shows "subset_session =
    \<lparr>fCodec = c1,
     fSwizzler = Some \<lparr>swz_colorTable = get_color_ptr (fColorTable c1), swz_dstWidth = 4\<rparr>,
     fDstInfo = canvas_10x10, fCurrScanline = 0\<rparr>"
proof -
  have p: "prepareToDecode (subset_codec False) decode_env_ok None
      = (kSuccess, c1, snd (initializeColorTable
          (snd (setFrameDimensions (subset_codec False) (subset_frame False))) None))"
    using prepareToDecode_success [of decode_env_ok "subset_codec False" None]
    by (simp add: decode_env_ok_fields subset_codec_fields subset_frame_fields c1_def)
  have f: "fFrameIsSubset c1" "fFrameDims c1 = \<lparr>fLeft = 2, fTop = 3, fRight = 6, fBottom = 7\<rparr>"
    "getInfo c1 = canvas_10x10"
    by (simp_all add: c1_def initializeColorTable_fields subset_codec_prepared
        setFrameDimensions_fields subset_codec_fields)
  show ?thesis
    by (simp add: subset_session_def start_def onStart_def new_SkGifScanlineDecoder_def p f
        initializeSwizzler_def decode_env_ok_fields)
qed


declare decode_scanlines.simps [simp del]

lemma ten_rows_cover: "(\<exists>j<10. j * 10 \<le> a \<and> a < j * 10 + 10) \<longleftrightarrow> a < (100 :: nat)"
proof
  assume "\<exists>j<10. j * 10 \<le> a \<and> a < j * 10 + 10"
  then obtain j where "j < 10" "a < j * 10 + 10" by blast
  then show "a < 100" by simp
next
  assume "a < 100"
  then have "a div 10 < 10" "a div 10 * 10 \<le> a" "a < a div 10 * 10 + 10" by simp_all
  then show "\<exists>j<10. j * 10 \<le> a \<and> a < j * 10 + 10" by blast
qed

lemma subset_session_scanlines:
  "onGetScanlines subset_session 0 10 10 rows unwritten
   = Some (kSuccess, rows, (\<lambda>a. if a < 100 then Some (SkPackARGB32 0xFF 0 0 0) else None))"
proof -
  define c1 where "c1 = fst (initializeColorTable
      (snd (setFrameDimensions (subset_codec False) (subset_frame False))) None)"
  note table = subset_codec_table [of False None, folded c1_def]
  have f: "fFrameIsSubset c1" "fFrameDims c1 = \<lparr>fLeft = 2, fTop = 3, fRight = 6, fBottom = 7\<rparr>"
    "getInfo c1 = canvas_10x10" "\<not> Interlace (Image (fGif c1))"
    by (simp_all add: c1_def initializeColorTable_fields subset_codec_prepared
        setFrameDimensions_fields subset_codec_fields subset_frame_fields)
  have fill: "Fill unwritten 0 10 10 10 0 (get_color_ptr (fColorTable c1))
      = (\<lambda>a. if a < 100 then Some (SkPackARGB32 0xFF 0 0 0) else None)"
    by (rule ext)
      (simp add: Fill_def fill_rows_apply ten_rows_cover array_read_color_ptr table
        unwritten_def)
  have loop: "decode_scanlines s fi T w dw rb 0 0 dst rows mem = Some (kSuccess, rows, mem)"
    for s fi T w dw rb dst mem
    by (subst decode_scanlines.simps) simp
  show ?thesis
    unfolding subset_session_eq [folded c1_def]
    by (simp add: onGetScanlines_def Let_def getY_def onGetY_def f table subset_frame_fields
        loop fill)
qed

lemma subset_decode_full:
  "fst (subset_decode False 4) = kSuccess"
  "snd (snd (snd (subset_decode False 4))) 32 = Some (SkPackARGB32 0xFF 0xFF 0xFF 0xFF)"
  "snd (snd (snd (subset_decode False 4))) 65 = Some (SkPackARGB32 0xFF 0xFF 0xFF 0xFF)"
proof -
  let ?c = "subset_codec False"
  let ?M = "snd (snd (snd (subset_decode False 4)))"
  note table = subset_codec_table [of False None, folded subset_decode_codec [of False 4]]
  have gs: "\<forall>r\<in>set (white_rows 4 4).
      length r = nat (rect_width (fFrameDims (snd (setFrameDimensions ?c (Image (fGif ?c))))))"
    by (simp add: subset_codec_fields subset_frame_fields subset_codec_prepared white_rows_def)
  note F = onGetPixels_frame [where c = ?c and env = decode_env_ok and dstInfo = canvas_10x10
      and rb = 10 and cnt = None and rows = "white_rows 4 4" and mem = unwritten,
      folded subset_decode_def]
  have "fst (subset_decode False 4) =
      (if length (white_rows 4 4)
          < nat (rect_height (fFrameDims (snd (setFrameDimensions ?c (Image (fGif ?c))))))
       then kIncompleteInput else kSuccess)"
    by (rule F(1))
      (use gs in \<open>simp_all add: decode_env_ok_fields subset_codec_fields subset_frame_fields
        subset_codec_no_overflow\<close>)
  then show "fst (subset_decode False 4) = kSuccess"
    by (simp add: subset_codec_fields subset_frame_fields subset_codec_prepared white_rows_good)
  have P: "?M (10 * (3 + j) + 2 + x) = Some (SkPackARGB32 0xFF 0xFF 0xFF 0xFF)"
    if "j < 4" "x < 4" for j x
    using F(3) [of j x] gs that
    by (simp add: decode_env_ok_fields subset_codec_fields subset_frame_fields
        subset_codec_no_overflow subset_codec_prepared white_rows_good
        table(3) [unfolded One_nat_def])
  show "?M 32 = Some (SkPackARGB32 0xFF 0xFF 0xFF 0xFF)" using P [of 0 0] by simp
  show "?M 65 = Some (SkPackARGB32 0xFF 0xFF 0xFF 0xFF)" using P [of 3 3] by simp
qed

lemma subset_decode_outside:
  "snd (snd (snd (subset_decode False 4))) 0 = Some (SkPackARGB32 0xFF 0 0 0)"
proof -
  define c1 where "c1 = fst (initializeColorTable
      (snd (setFrameDimensions (subset_codec False) (subset_frame False))) None)"
  note table = subset_codec_table [of False None, folded c1_def]
  have f: "fFrameIsSubset c1" "fFrameDims c1 = \<lparr>fLeft = 2, fTop = 3, fRight = 6, fBottom = 7\<rparr>"
    "getInfo c1 = canvas_10x10" "\<not> Interlace (Image (fGif c1))"
    by (simp_all add: c1_def initializeColorTable_fields subset_codec_prepared
        setFrameDimensions_fields subset_codec_fields subset_frame_fields)
  have U: "subset_decode False 4 =
    (let T = get_color_ptr (fColorTable c1);
         s = \<lparr>swz_colorTable = T, swz_dstWidth = 4\<rparr>;
         mem1 = Fill unwritten 0 10 10 10 0 T;
         res = decode_standard s 0 T 4 10 10 4 0 32 (white_rows 4 4) mem1
     in (fst res, c1, fst (snd res), snd (snd res)))"
    unfolding subset_decode_def
    using onGetPixels_unfold [of decode_env_ok canvas_10x10 "subset_codec False" 10 None
        "white_rows 4 4" unwritten]
    by (simp add: decode_env_ok_fields subset_codec_fields subset_frame_fields
        c1_def [symmetric] f table Let_def)
  have "Fill unwritten 0 10 10 10 0 (get_color_ptr (fColorTable c1)) 0
      = Some (SkPackARGB32 0xFF 0 0 0)"
    by (simp add: Fill_def fill_rows_apply array_read_color_ptr table)
  then show ?thesis
    unfolding U by (simp add: Let_def decode_standard_below)
qed

text \<open>
  Claim C7, at the example of the specification: the logical screen of 10 by 10 pixels
  with the frame of 4 by 4 pixels at (2, 3), all of whose pixels have the palette index 1
  (white), the fill colour being the entry 0 of the palette (black). The bulk decoder
  does what the claim says: it succeeds, a pixel outside the frame holds the fill colour
  and the pixels of the frame hold the decoded colour. The scanline decoder does not: a
  call of \<^verbatim>\<open>onGetScanlines\<close> for the 10 rows of the canvas, of which 4 are rows of the frame,
  fills the 10 rows and returns \<^verbatim>\<open>kSuccess\<close>, but \<^verbatim>\<open>SkTMin(0, count - rowsBeforeFrame)\<close>
  leaves no row to decode: the decompressor still holds its 4 rows and every pixel of the
  frame holds the fill colour.
\<close>

theorem scanlines_above_frame_decode_nothing:
  "fFrameDims (fCodec subset_session) = \<lparr>fLeft = 2, fTop = 3, fRight = 6, fBottom = 7\<rparr>
   \<and> getY subset_session = 0
   \<and> in_frame_rows (fFrameDims (fCodec subset_session)) (getY subset_session) 10 = 4
   \<and> onGetScanlines subset_session 0 10 10 (white_rows 4 4) unwritten
       = Some (kSuccess, white_rows 4 4,
               (\<lambda>a. if a < 100 then Some (SkPackARGB32 0xFF 0 0 0) else None))
   \<and> fst (subset_decode False 4) = kSuccess
   \<and> snd (snd (snd (subset_decode False 4))) 0 = Some (SkPackARGB32 0xFF 0 0 0)
   \<and> snd (snd (snd (subset_decode False 4))) 32 = Some (SkPackARGB32 0xFF 0xFF 0xFF 0xFF)
   \<and> snd (snd (snd (subset_decode False 4))) 65 = Some (SkPackARGB32 0xFF 0xFF 0xFF 0xFF)"
proof -
  have f: "fFrameDims (fCodec subset_session) = \<lparr>fLeft = 2, fTop = 3, fRight = 6, fBottom = 7\<rparr>"
    unfolding subset_session_eq
    by (simp add: initializeColorTable_fields subset_codec_prepared)
  have y: "getY subset_session = 0"
    unfolding subset_session_eq
    by (simp add: getY_def onGetY_def initializeColorTable_fields setFrameDimensions_fields
        subset_codec_fields subset_frame_fields)
  have n: "in_frame_rows (fFrameDims (fCodec subset_session)) (getY subset_session) 10 = 4"
    unfolding f y by (simp add: in_frame_rows_def)
  show ?thesis
    using f y n subset_session_scanlines [of "white_rows 4 4"] subset_decode_full
      subset_decode_outside
    by simp
qed

end
